theory Spec2Isabelle
  imports Main "HOL-Library.Word" "HOL-Library.Signed_Division"
begin

section \<open>M5Scribe: the control loop of \<^verbatim>\<open>src/main.cpp\<close>\<close>

text \<open>
  The firmware is one file, \<^verbatim>\<open>main.cpp\<close>. It keeps its state in global variables and in
  function-local statics; the model collects them in one record and passes it through every
  function. On the ESP32 \<^verbatim>\<open>int\<close> and \<^verbatim>\<open>long\<close> are 32-bit two's complement,
  \<^verbatim>\<open>unsigned long\<close> and \<^verbatim>\<open>size_t\<close> are 32-bit unsigned. Unsigned values whose
  wrap-around matters (the millisecond clock) are \<open>32 word\<close>; signed values are \<open>int\<close>
  with an explicit range check where the C++ arithmetic would overflow; division of signed
  values is C's truncating division \<open>sdiv\<close>.
\<close>

subsection \<open>Types\<close>

type_synonym u8 = "8 word"
type_synonym u32 = "32 word"

text \<open>What the program does to the outside world, in the order it does it.\<close>

datatype button = CONNECT | STOP

datatype effect =
    FillScreen                \<comment> \<open>fillScreen, gradient and status bar: the full redraw (l. 285-287)\<close>
  | StatusBar                 \<comment> \<open>the periodic drawStatusBar (l. 303)\<close>
  | StreamingChrome           \<comment> \<open>static elements of the streaming screen (l. 312-325)\<close>
  | VisualizerInit            \<comment> \<open>l. 332-333\<close>
  | Visualizer int            \<comment> \<open>drawAudioVisualizer at the current audioLevel (l. 337)\<close>
  | LevelBar int              \<comment> \<open>l. 341-348\<close>
  | SearchingChrome           \<comment> \<open>l. 358-365\<close>
  | Spinner int               \<comment> \<open>the rotating circles at animFrame (l. 372-381)\<close>
  | Countdown u32             \<comment> \<open>the remaining seconds drawn (l. 386-389)\<close>
  | ReadyChrome               \<comment> \<open>l. 399-413\<close>
  | ButtonFeedback button     \<comment> \<open>drawModernButton (..., pressed) in loop\<close>
  | Delay nat
  | EnableSSP
  | Disconnect
  | SerialPrint string
  | I2SRead
  | BtWrite nat nat           \<comment> \<open>SerialBT.write (audioBuffer + offset, len)\<close>
  | Warning nat nat           \<comment> \<open>"Warning: Only wrote %d/%d bytes"\<close>

datatype error = DivideByZero | SignedOverflow | OutOfBounds

record state =
  btConnected :: bool
  btDiscoverable :: bool
  discoverableStartTime :: u32
  audioBuffer :: "u8 list"
  audioLevel :: int
  lastAudioUpdate :: u32
  lastDisplayState :: int
  needsFullRedraw :: bool
  lastLevel :: int                \<comment> \<open>static in calculateAudioLevel\<close>
  lastUpdate :: u32               \<comment> \<open>statics in updateDisplay\<close>
  animFrame :: int
  lastAudioLevel :: int
  lastRemainingTime :: u32
  lastStatusBarUpdate :: u32
  lastTouchState :: bool          \<comment> \<open>static in loop\<close>
  trace :: "effect list"          \<comment> \<open>the effects so far, oldest first\<close>

definition DATA_SIZE :: nat where
  "DATA_SIZE = 2048"

definition DISCOVERABLE_DURATION :: u32 where
  "DISCOVERABLE_DURATION = 60000"

text \<open>The initial values of the globals and statics (l. 31-44, 108, 274-278, 491).\<close>

definition initial :: state where
  "initial = \<lparr> btConnected = False, btDiscoverable = False, discoverableStartTime = 0,
     audioBuffer = replicate DATA_SIZE 0, audioLevel = 0, lastAudioUpdate = 0,
     lastDisplayState = - 1, needsFullRedraw = True, lastLevel = 0,
     lastUpdate = 0, animFrame = 0, lastAudioLevel = - 1, lastRemainingTime = 999,
     lastStatusBarUpdate = 0, lastTouchState = False, trace = [] \<rparr>"

definition emit :: "effect \<Rightarrow> state \<Rightarrow> state" where
  "emit e s = s\<lparr>trace := trace s @ [e]\<rparr>"

subsection \<open>Arduino helpers\<close>

definition int32 :: "int \<Rightarrow> bool" where
  "int32 x = (- 2147483648 \<le> x \<and> x \<le> 2147483647)"

text \<open>
  Modelled from the spec: \<^verbatim>\<open>map\<close> and \<^verbatim>\<open>constrain\<close> belong to the Arduino core, which
  is not part of the repository. The spec calls the first a linear map of an input range to an
  output range and the second a clamp; the definitions are the Arduino core's
  \<^verbatim>\<open>(x - in_min) * (out_max - out_min) / (in_max - in_min) + out_min\<close> on \<^verbatim>\<open>long\<close> and
  \<^verbatim>\<open>(amt) < (low) ? (low) : ((amt) > (high) ? (high) : (amt))\<close>.
\<close>

definition map_arduino :: "int \<Rightarrow> int \<Rightarrow> int \<Rightarrow> int \<Rightarrow> int \<Rightarrow> int" where
  "map_arduino x in_min in_max out_min out_max =
     (x - in_min) * (out_max - out_min) sdiv (in_max - in_min) + out_min"

definition constrain :: "int \<Rightarrow> int \<Rightarrow> int \<Rightarrow> int" where
  "constrain amt low high = (if amt < low then low else if amt > high then high else amt)"

subsection \<open>calculateAudioLevel (l. 84-111)\<close>

text \<open>
  \<^verbatim>\<open>samples[i]\<close> with \<^verbatim>\<open>int16_t* samples = (int16_t*)buffer\<close>: the little-endian 16-bit
  value at bytes \<open>2i\<close> and \<open>2i + 1\<close>, read as two's complement. A read past the end of
  the buffer is an error of the model.
\<close>

definition sample16 :: "u8 list \<Rightarrow> nat \<Rightarrow> int" where
  "sample16 buffer i =
     sint (word_of_nat (unat (buffer ! (2 * i)) + 256 * unat (buffer ! (2 * i + 1))) :: 16 word)"

definition sample_at :: "u8 list \<Rightarrow> nat \<Rightarrow> error + int" where
  "sample_at buffer i =
     (if 2 * i + 1 < length buffer then Inr (sample16 buffer i) else Inl OutOfBounds)"

text \<open>
  The loop of l. 91-97, from index \<open>i\<close> with the running \<^verbatim>\<open>sum\<close> (here \<open>acc\<close>) and
  \<open>maxSample\<close>. \<^verbatim>\<open>sum\<close> is a \<^verbatim>\<open>long\<close>: leaving its range is undefined behaviour, an error here.
\<close>

function scanSamples :: "u8 list \<Rightarrow> nat \<Rightarrow> nat \<Rightarrow> int \<Rightarrow> int \<Rightarrow> error + (int \<times> int)" where
  "scanSamples buffer sampleCount i acc maxSample =
     (if i < sampleCount then
        (case sample_at buffer i of
           Inl e \<Rightarrow> Inl e
         | Inr v \<Rightarrow>
             (let sample = \<bar>v\<bar> in
              if \<not> int32 (acc + sample) then Inl SignedOverflow
              else scanSamples buffer sampleCount (i + 1) (acc + sample)
                     (if sample > maxSample then sample else maxSample)))
      else Inr (acc, maxSample))"
  by pat_completeness auto
termination
  by (relation "measure (\<lambda>(buffer, sampleCount, i, acc, maxSample). sampleCount - i)") auto

declare scanSamples.simps [simp del]

text \<open>
  Lines 85-105: the value of \<^verbatim>\<open>audioLevel\<close> before smoothing. The division by
  \<^verbatim>\<open>sampleCount\<close> traps when \<^verbatim>\<open>sampleCount\<close> is zero.
\<close>

definition instantLevel :: "u8 list \<Rightarrow> nat \<Rightarrow> error + int" where
  "instantLevel buffer len =
     (let sampleCount = len div 2 in
      case scanSamples buffer sampleCount 0 0 0 of
        Inl e \<Rightarrow> Inl e
      | Inr (acc, maxSample) \<Rightarrow>
          if sampleCount = 0 then Inl DivideByZero
          else
            (let avg = acc sdiv int sampleCount;
                 combined = (avg * 3 + maxSample) sdiv 4
             in if \<not> (int32 (avg * 3) \<and> int32 (avg * 3 + maxSample) \<and> int32 (combined - 100)
                      \<and> int32 ((combined - 100) * 100))
                then Inl SignedOverflow
                else Inr (constrain (map_arduino combined 100 2000 0 100) 0 100)))"

text \<open>Lines 107-110: the smoothing against the static \<^verbatim>\<open>lastLevel\<close>.\<close>

definition calculateAudioLevel :: "u8 list \<Rightarrow> nat \<Rightarrow> state \<Rightarrow> error + state" where
  "calculateAudioLevel buffer len s =
     (case instantLevel buffer len of
        Inl e \<Rightarrow> Inl e
      | Inr level \<Rightarrow>
          if \<not> (int32 (level * 7) \<and> int32 (lastLevel s * 3) \<and> int32 (level * 7 + lastLevel s * 3))
          then Inl SignedOverflow
          else
            (let smoothed = (level * 7 + lastLevel s * 3) sdiv 10
             in Inr (s\<lparr>audioLevel := smoothed, lastLevel := smoothed\<rparr>)))"

text \<open>A run of analyzer calls, one per block, stopping at the first error.\<close>

fun analyzeAll :: "(u8 list \<times> nat) list \<Rightarrow> state \<Rightarrow> error + state" where
  "analyzeAll [] s = Inr s"
| "analyzeAll ((buffer, len) # bs) s =
     (case calculateAudioLevel buffer len s of Inl e \<Rightarrow> Inl e | Inr s' \<Rightarrow> analyzeAll bs s')"

subsection \<open>The level analysis as the specification words it\<close>

text \<open>
  The block the caller hands over: \<open>len\<close> bytes at the start of a buffer that is at most
  \<^verbatim>\<open>DATA_SIZE\<close> long, holding at least one whole sample.
\<close>

definition validBlock :: "u8 list \<Rightarrow> nat \<Rightarrow> bool" where
  "validBlock buffer len = (2 \<le> len \<and> len \<le> length buffer \<and> length buffer \<le> DATA_SIZE)"

text \<open>
  The block's 16-bit samples, as the specification's data model has them: the first \<open>len\<close>
  bytes taken two at a time, low byte first, each pair read as a two's complement number; a
  last odd byte holds no sample. This does not go through the code's indexing.
\<close>

definition le16 :: "u8 \<Rightarrow> u8 \<Rightarrow> int" where
  "le16 lo hi = (let u = uint lo + 256 * uint hi in if u < 32768 then u else u - 65536)"

fun spec_samples :: "u8 list \<Rightarrow> int list" where
  "spec_samples (lo # hi # rest) = le16 lo hi # spec_samples rest"
| "spec_samples rest = []"

definition blockSamples :: "u8 list \<Rightarrow> nat \<Rightarrow> int list" where
  "blockSamples buffer len = spec_samples (take len buffer)"

text \<open>
  These five definitions follow section 4.2 of the specification, not the code: mean and peak
  absolute amplitude, \<open>combined = (3*mean + peak) / 4\<close>, the linear map of 100-2000 to
  0-100 clamped to [0,100], and \<open>new = (mapped*7 + previous*3) / 10\<close>. Every quotient is
  the integer quotient \<open>div\<close>.
\<close>

definition spec_mean :: "int list \<Rightarrow> int" where
  "spec_mean xs = sum_list (map abs xs) div int (length xs)"

definition spec_peak :: "int list \<Rightarrow> int" where
  "spec_peak xs = Max (set (map abs xs))"

definition spec_combined :: "int list \<Rightarrow> int" where
  "spec_combined xs = (3 * spec_mean xs + spec_peak xs) div 4"

definition spec_mapped :: "int list \<Rightarrow> int" where
  "spec_mapped xs = max 0 (min 100 ((spec_combined xs - 100) * (100 - 0) div (2000 - 100) + 0))"

definition spec_level :: "int list \<Rightarrow> int \<Rightarrow> int" where
  "spec_level xs previous = (spec_mapped xs * 7 + previous * 3) div 10"

subsection \<open>The link callback (l. 422-432) and the displayed state (l. 281)\<close>

datatype spp_event = ESP_SPP_SRV_OPEN_EVT | ESP_SPP_CLOSE_EVT | ESP_SPP_OTHER_EVT

definition btCallback :: "spp_event \<Rightarrow> state \<Rightarrow> state" where
  "btCallback event s =
     (if event = ESP_SPP_SRV_OPEN_EVT then
        emit (SerialPrint ''Bluetooth client connected'')
          (s\<lparr>btConnected := True, needsFullRedraw := True\<rparr>)
      else if event = ESP_SPP_CLOSE_EVT then
        emit (SerialPrint ''Bluetooth client disconnected'')
          (s\<lparr>btConnected := False, needsFullRedraw := True\<rparr>)
      else s)"

text \<open>\<^verbatim>\<open>int currentState = btConnected ? 2 : (btDiscoverable ? 1 : 0);\<close>\<close>

definition currentState :: "state \<Rightarrow> int" where
  "currentState s = (if btConnected s then 2 else if btDiscoverable s then 1 else 0)"

text \<open>
  The three values by name, as the comment of l. 43 reads them: 0 waiting, 1 searching,
  2 connected.
\<close>

datatype ConnectionState = Idle | Discoverable | Streaming

definition connectionState :: "state \<Rightarrow> ConnectionState" where
  "connectionState s =
     (if currentState s = 2 then Streaming else if currentState s = 1 then Discoverable else Idle)"

subsection \<open>updateDisplay (l. 273-419)\<close>

text \<open>
  Drawing is recorded as effects; pixel coordinates and colours are left out, and so are the
  statics of \<^verbatim>\<open>drawAudioVisualizer\<close> and the float \<^verbatim>\<open>pulseAnimation\<close>, which only
  shape what is drawn. The three readings of \<^verbatim>\<open>millis()\<close> (l. 292, 299 and 384) are
  arguments, in that order.
\<close>

text \<open>The branch \<^verbatim>\<open>if (btConnected)\<close>, l. 309-353.\<close>

definition displayStreaming :: "u32 \<Rightarrow> state \<Rightarrow> state" where
  "displayStreaming now s =
     (let s1 = (if lastAudioLevel s = - 1 then emit StreamingChrome s else s) in
      if now - lastUpdate s1 > 50 then
        (let s2 = (if lastAudioLevel s1 = - 1 then emit VisualizerInit s1 else s1);
             s3 = emit (Visualizer (audioLevel s2)) s2;
             s4 = (if audioLevel s3 \<noteq> lastAudioLevel s3
                   then (emit (LevelBar (audioLevel s3)) s3)\<lparr>lastAudioLevel := audioLevel s3\<rparr>
                   else s3)
         in s4\<lparr>lastUpdate := now\<rparr>)
      else s1)"

text \<open>The countdown of l. 384, in \<^verbatim>\<open>unsigned long\<close> arithmetic.\<close>

definition remainingSeconds :: "u32 \<Rightarrow> u32 \<Rightarrow> u32" where
  "remainingSeconds ms start = (DISCOVERABLE_DURATION - (ms - start)) div 1000"

text \<open>The branch \<^verbatim>\<open>else if (btDiscoverable)\<close>, l. 355-394.\<close>

definition displaySearching :: "u32 \<Rightarrow> u32 \<Rightarrow> state \<Rightarrow> state" where
  "displaySearching now ms s =
     (let s1 = (if lastAudioLevel s = - 1
                then (emit SearchingChrome s)\<lparr>lastAudioLevel := 0\<rparr> else s) in
      if now - lastUpdate s1 > 50 then
        (let frame = (animFrame s1 + 5) smod 360;
             s2 = emit (Spinner frame) (s1\<lparr>animFrame := frame\<rparr>);
             remaining = remainingSeconds ms (discoverableStartTime s2);
             s3 = (if remaining \<noteq> lastRemainingTime s2
                   then (emit (Countdown remaining) s2)\<lparr>lastRemainingTime := remaining\<rparr>
                   else s2)
         in s3\<lparr>lastUpdate := now\<rparr>)
      else s1)"

text \<open>The last branch, l. 396-416.\<close>

definition displayReady :: "state \<Rightarrow> state" where
  "displayReady s =
     (if lastAudioLevel s = - 1 then (emit ReadyChrome s)\<lparr>lastAudioLevel := 0\<rparr> else s)"

definition updateDisplay :: "u32 \<Rightarrow> u32 \<Rightarrow> u32 \<Rightarrow> state \<Rightarrow> state" where
  "updateDisplay ms_redraw now ms_remaining s =
     (let cur = currentState s;
          s1 = (if cur \<noteq> lastDisplayState s \<or> needsFullRedraw s
                then (emit FillScreen s)\<lparr>lastDisplayState := cur, needsFullRedraw := False,
                       lastAudioLevel := - 1, lastRemainingTime := 999,
                       lastStatusBarUpdate := ms_redraw\<rparr>
                else s);
          s2 = (if now - lastStatusBarUpdate s1 > 5000
                then (emit StatusBar s1)\<lparr>lastStatusBarUpdate := now\<rparr> else s1)
      in if btConnected s2 then displayStreaming now s2
         else if btDiscoverable s2 then displaySearching now ms_remaining s2
         else displayReady s2)"

subsection \<open>The transmit loop (l. 561-573)\<close>

text \<open>
  \<^verbatim>\<open>SerialBT.write\<close> belongs to the transport, outside the repository; it is a parameter
  \<open>wr\<close>: at the \<open>k\<close>-th call the link can take \<open>fst (wr k)\<close> bytes, so the call
  returns the smaller of that and the bytes offered, and the link events \<open>snd (wr k)\<close>
  reach \<^verbatim>\<open>btCallback\<close> before the loop tests \<^verbatim>\<open>btConnected\<close> again. The loop has no
  bound of its own: a run that never leaves it has the value \<open>None\<close>.
\<close>

partial_function (option) sendLoop ::
  "(nat \<Rightarrow> nat \<times> spp_event list) \<Rightarrow> nat \<Rightarrow> nat \<Rightarrow> nat \<Rightarrow> state \<Rightarrow> (nat \<times> state) option" where
  "sendLoop wr bytesRead k totalWritten s =
     (if totalWritten < bytesRead \<and> btConnected s then
        (let written = min (fst (wr k)) (bytesRead - totalWritten);
             s1 = fold btCallback (snd (wr k))
                    (emit (BtWrite totalWritten (bytesRead - totalWritten)) s)
         in if written > 0 then sendLoop wr bytesRead (k + 1) (totalWritten + written) s1
            else sendLoop wr bytesRead (k + 1) totalWritten (emit (Delay 1) s1))
      else Some (totalWritten, s))"

declare sendLoop.simps [code]

text \<open>Lines 561-573: the loop from nothing written, then the warning.\<close>

definition transmit ::
  "(nat \<Rightarrow> nat \<times> spp_event list) \<Rightarrow> nat \<Rightarrow> state \<Rightarrow> (nat \<times> state) option" where
  "transmit wr bytesRead s =
     (case sendLoop wr bytesRead 0 0 s of
        None \<Rightarrow> None
      | Some (totalWritten, s1) \<Rightarrow>
          Some (totalWritten,
                if totalWritten \<noteq> bytesRead then emit (Warning totalWritten bytesRead) s1 else s1))"

subsection \<open>loop (l. 484-579)\<close>

text \<open>
  What one pass of \<^verbatim>\<open>loop\<close> reads from outside, in the order it reads it. The link
  callback is run by the transport, not by \<^verbatim>\<open>loop\<close>, so link events can reach it while
  the pass spends time. The model delivers them where the pass waits: when
  \<^verbatim>\<open>updateDisplay\<close> returns (the events that arrived while the screen was drawn), in
  the \<^verbatim>\<open>delay(100)\<close> and \<^verbatim>\<open>delay(200)\<close> of the two button handlers, while
  \<^verbatim>\<open>i2s_read\<close> blocks and with each \<^verbatim>\<open>SerialBT.write\<close>; events between two passes
  are steps of a run.
\<close>

record tick_env =
  ms_redraw :: u32                \<comment> \<open>millis() at l. 292\<close>
  ms_now :: u32                   \<comment> \<open>l. 299\<close>
  ms_remaining :: u32             \<comment> \<open>l. 384\<close>
  ev_display :: "spp_event list"  \<comment> \<open>link events delivered while the screen was drawn\<close>
  touch_x :: int                  \<comment> \<open>M5.Touch.getPressPoint(), l. 492\<close>
  touch_y :: int
  ev_connect_feedback :: "spp_event list"  \<comment> \<open>during delay(100), l. 500\<close>
  ms_connect :: u32               \<comment> \<open>l. 504\<close>
  ev_connect_settle :: "spp_event list"    \<comment> \<open>during delay(200), l. 508\<close>
  ev_stop_feedback :: "spp_event list"     \<comment> \<open>during delay(100), l. 517\<close>
  ev_stop_settle :: "spp_event list"       \<comment> \<open>during delay(200), l. 525\<close>
  ms_timeout :: u32               \<comment> \<open>l. 533\<close>
  i2s_ok :: bool                  \<comment> \<open>i2s_read returned ESP_OK, l. 545\<close>
  i2s_bytesRead :: nat
  i2s_data :: "u8 list"           \<comment> \<open>the bytes it stored in audioBuffer\<close>
  i2s_events :: "spp_event list"  \<comment> \<open>link events delivered while it blocked\<close>
  ms_level :: u32                 \<comment> \<open>l. 555\<close>
  ms_level_done :: u32            \<comment> \<open>l. 557\<close>
  bt_write :: "nat \<Rightarrow> nat \<times> spp_event list"

text \<open>The body of the CONNECT branch, l. 498-508.\<close>

definition pressConnect :: "tick_env \<Rightarrow> state \<Rightarrow> state" where
  "pressConnect env s =
     (let a = fold btCallback (ev_connect_feedback env)
                (emit (Delay 100) (emit (ButtonFeedback CONNECT) s));
          b = a\<lparr>btDiscoverable := True, discoverableStartTime := ms_connect env\<rparr>;
          c = emit (SerialPrint ''Connection mode enabled for 60 seconds'') (emit EnableSSP b)
      in fold btCallback (ev_connect_settle env) (emit (Delay 200) (c\<lparr>needsFullRedraw := True\<rparr>)))"

text \<open>The body of the STOP branch, l. 515-525.\<close>

definition pressStop :: "tick_env \<Rightarrow> state \<Rightarrow> state" where
  "pressStop env s =
     (let a = fold btCallback (ev_stop_feedback env)
                (emit (Delay 100) (emit (ButtonFeedback STOP) s));
          b = (emit Disconnect a)\<lparr>btConnected := False, btDiscoverable := False\<rparr>;
          c = emit (SerialPrint ''Disconnected by user'') b
      in fold btCallback (ev_stop_settle env) (emit (Delay 200) (c\<lparr>needsFullRedraw := True\<rparr>)))"

text \<open>Touch handling, l. 490-529.\<close>

definition handleTouch :: "tick_env \<Rightarrow> state \<Rightarrow> state" where
  "handleTouch env s =
     (let x = touch_x env; y = touch_y env;
          touching = (x > 0 \<and> y > 0);
          s1 = (if \<not> btConnected s \<and> \<not> btDiscoverable s \<and> touching \<and> \<not> lastTouchState s
                  \<and> x \<ge> 70 \<and> x \<le> 250 \<and> y \<ge> 190 \<and> y \<le> 240
                then pressConnect env s else s);
          s2 = (if btConnected s1 \<and> touching \<and> \<not> lastTouchState s1
                  \<and> x \<ge> 195 \<and> x \<le> 305 \<and> y \<ge> 185 \<and> y \<le> 230
                then pressStop env s1 else s1)
      in s2\<lparr>lastTouchState := touching\<rparr>)"

text \<open>The discoverability timeout, l. 531-538.\<close>

definition checkTimeout :: "tick_env \<Rightarrow> state \<Rightarrow> state" where
  "checkTimeout env s =
     (if btDiscoverable s \<and> \<not> btConnected s
         \<and> ms_timeout env - discoverableStartTime s > DISCOVERABLE_DURATION
      then emit (SerialPrint ''Connection mode timeout'')
             (s\<lparr>btDiscoverable := False, needsFullRedraw := True\<rparr>)
      else s)"

text \<open>
  Streaming, l. 540-578. \<^verbatim>\<open>i2s_read\<close> overwrites the first \<^verbatim>\<open>bytesRead\<close> bytes of
  \<^verbatim>\<open>audioBuffer\<close>. The result is \<open>None\<close> when the transmit loop never ends,
  \<open>Some (Inl e)\<close> when the level analysis traps, \<open>Some (Inr s)\<close> otherwise.
\<close>

definition streamAudio :: "tick_env \<Rightarrow> state \<Rightarrow> (error + state) option" where
  "streamAudio env s =
     (if btConnected s then
        (let bytesRead = i2s_bytesRead env;
             s1 = (emit I2SRead s)\<lparr>audioBuffer :=
                    take bytesRead (i2s_data env) @ drop bytesRead (audioBuffer s)\<rparr>;
             s2 = fold btCallback (i2s_events env) s1
         in if i2s_ok env \<and> bytesRead > 0 then
              (case (if ms_level env - lastAudioUpdate s2 > 50
                     then (case calculateAudioLevel (audioBuffer s2) bytesRead s2 of
                             Inl e \<Rightarrow> Inl e
                           | Inr s3 \<Rightarrow> Inr (s3\<lparr>lastAudioUpdate := ms_level_done env\<rparr>))
                     else Inr s2) of
                 Inl e \<Rightarrow> Some (Inl e)
               | Inr s3 \<Rightarrow>
                   (case transmit (bt_write env) bytesRead s3 of
                      None \<Rightarrow> None
                    | Some (totalWritten, s4) \<Rightarrow> Some (Inr s4)))
            else Some (Inr s2))
      else Some (Inr (emit (Delay 100) s)))"

definition loop :: "tick_env \<Rightarrow> state \<Rightarrow> (error + state) option" where
  "loop env s =
     streamAudio env
       (checkTimeout env
          (handleTouch env
             (fold btCallback (ev_display env)
                (updateDisplay (ms_redraw env) (ms_now env) (ms_remaining env) s))))"

subsection \<open>Runs\<close>

text \<open>
  Between two passes of \<^verbatim>\<open>loop\<close> a run delivers link events one by one; these include
  the events that arrive in the \<^verbatim>\<open>delay(100)\<close> that ends a pass without a link.
\<close>

datatype step = Event spp_event | Tick tick_env

fun exec :: "step list \<Rightarrow> state \<Rightarrow> (error + state) option" where
  "exec [] s = Some (Inr s)"
| "exec (Event e # steps) s = exec steps (btCallback e s)"
| "exec (Tick env # steps) s =
     (case loop env s of
        None \<Rightarrow> None
      | Some (Inl e) \<Rightarrow> Some (Inl e)
      | Some (Inr s') \<Rightarrow> exec steps s')"

text \<open>
  A pass at time \<open>t\<close> with a touch at \<open>(x, y)\<close>, a failing audio read and no link event.
\<close>

definition touchAt :: "int \<Rightarrow> int \<Rightarrow> u32 \<Rightarrow> tick_env" where
  "touchAt x y t = \<lparr> ms_redraw = t, ms_now = t, ms_remaining = t, ev_display = [],
     touch_x = x, touch_y = y, ev_connect_feedback = [], ms_connect = t, ev_connect_settle = [],
     ev_stop_feedback = [], ev_stop_settle = [], ms_timeout = t, i2s_ok = False, i2s_bytesRead = 0, i2s_data = [],
     i2s_events = [], ms_level = t, ms_level_done = t, bt_write = (\<lambda>k. (0, [])) \<rparr>"

text \<open>The same with no touch: \<^verbatim>\<open>getPressPoint\<close> reports \<open>(-1, -1)\<close>.\<close>

definition quiet :: "u32 \<Rightarrow> tick_env" where
  "quiet t = touchAt (- 1) (- 1) t"

subsection \<open>Observing runs\<close>

text \<open>
  The effects by the part of \<^verbatim>\<open>loop\<close> that produces them. \<^verbatim>\<open>delay\<close> and
  \<^verbatim>\<open>Serial.println\<close> occur both in the touch handling and in the streaming part.
\<close>

fun display_effect :: "effect \<Rightarrow> bool" where
  "display_effect FillScreen = True"
| "display_effect StatusBar = True"
| "display_effect StreamingChrome = True"
| "display_effect VisualizerInit = True"
| "display_effect (Visualizer l) = True"
| "display_effect (LevelBar l) = True"
| "display_effect SearchingChrome = True"
| "display_effect (Spinner f) = True"
| "display_effect (Countdown r) = True"
| "display_effect ReadyChrome = True"
| "display_effect e = False"

fun input_effect :: "effect \<Rightarrow> bool" where
  "input_effect (ButtonFeedback b) = True"
| "input_effect (Delay n) = True"
| "input_effect EnableSSP = True"
| "input_effect Disconnect = True"
| "input_effect (SerialPrint m) = True"
| "input_effect e = False"

fun audio_effect :: "effect \<Rightarrow> bool" where
  "audio_effect I2SRead = True"
| "audio_effect (BtWrite off n) = True"
| "audio_effect (Warning w n) = True"
| "audio_effect (Delay n) = True"
| "audio_effect (SerialPrint m) = True"
| "audio_effect e = False"

text \<open>The effects of a run from \<open>s\<close> to \<open>s'\<close>, and the full redraws among some effects.\<close>

definition added :: "state \<Rightarrow> state \<Rightarrow> effect list" where
  "added s s' = drop (length (trace s)) (trace s')"

definition fullRedraws :: "effect list \<Rightarrow> nat" where
  "fullRedraws xs = length (filter (\<lambda>e. e = FillScreen) xs)"

text \<open>
  Every change of \<^verbatim>\<open>btConnected\<close> or \<^verbatim>\<open>btDiscoverable\<close> in the program comes with a
  \<^verbatim>\<open>Serial.println\<close>: effects without one contain no transition and no link event.
\<close>

definition quietEffects :: "effect list \<Rightarrow> bool" where
  "quietEffects xs = (\<forall>e \<in> set xs. case e of SerialPrint m \<Rightarrow> False | _ \<Rightarrow> True)"

text \<open>The screen shows the current state and no redraw is pending.\<close>

definition rendered :: "state \<Rightarrow> bool" where
  "rendered s = (lastDisplayState s = currentState s \<and> \<not> needsFullRedraw s)"

text \<open>
  What every step after the rendering keeps: the trace grows, the rendered state stays, a
  pending redraw stays pending, and the connection flags change only with a print and a
  pending redraw.
\<close>

definition progress :: "state \<Rightarrow> effect list \<Rightarrow> state \<Rightarrow> bool" where
  "progress s x s' =
     (trace s' = trace s @ x \<and> lastDisplayState s' = lastDisplayState s
      \<and> (needsFullRedraw s \<longrightarrow> needsFullRedraw s')
      \<and> (quietEffects x \<longrightarrow> btConnected s' = btConnected s \<and> btDiscoverable s' = btDiscoverable s
             \<and> needsFullRedraw s' = needsFullRedraw s)
      \<and> (currentState s' \<noteq> currentState s \<longrightarrow> needsFullRedraw s'))"

text \<open>What every drawing step after the full redraw keeps.\<close>

definition drawn :: "state \<Rightarrow> effect list \<Rightarrow> state \<Rightarrow> bool" where
  "drawn s x s' =
     (trace s' = trace s @ x \<and> list_all display_effect x \<and> fullRedraws x = 0
      \<and> btConnected s' = btConnected s \<and> btDiscoverable s' = btDiscoverable s
      \<and> discoverableStartTime s' = discoverableStartTime s
      \<and> lastTouchState s' = lastTouchState s
      \<and> lastDisplayState s' = lastDisplayState s
      \<and> needsFullRedraw s' = needsFullRedraw s
      \<and> audioBuffer s' = audioBuffer s \<and> lastLevel s' = lastLevel s)"

text \<open>The connection state after a run from the initial state.\<close>

definition stateAfter :: "step list \<Rightarrow> (error + ConnectionState) option" where
  "stateAfter steps = map_option (map_sum id connectionState) (exec steps initial)"

text \<open>What one pass leaves: the effects, the connection state and the state drawn.\<close>

definition observe :: "state \<Rightarrow> effect list \<times> ConnectionState \<times> int" where
  "observe s = (trace s, connectionState s, lastDisplayState s)"

definition tickResult :: "tick_env \<Rightarrow> state \<Rightarrow> (error + effect list \<times> ConnectionState \<times> int) option" where
  "tickResult env s = map_option (map_sum id observe) (loop env s)"

text \<open>
  Whether the link is up after some events, given whether it was before: what
  \<^verbatim>\<open>btCallback\<close> makes of \<^verbatim>\<open>btConnected\<close>.
\<close>

definition linkAfter :: "spp_event list \<Rightarrow> bool \<Rightarrow> bool" where
  "linkAfter evs c =
     fold (\<lambda>ev c. if ev = ESP_SPP_SRV_OPEN_EVT then True
                  else if ev = ESP_SPP_CLOSE_EVT then False else c) evs c"

text \<open>What the callback prints for some events, in order.\<close>

fun eventPrints :: "spp_event list \<Rightarrow> effect list" where
  "eventPrints [] = []"
| "eventPrints (ESP_SPP_SRV_OPEN_EVT # evs) =
     SerialPrint ''Bluetooth client connected'' # eventPrints evs"
| "eventPrints (ESP_SPP_CLOSE_EVT # evs) =
     SerialPrint ''Bluetooth client disconnected'' # eventPrints evs"
| "eventPrints (ESP_SPP_OTHER_EVT # evs) = eventPrints evs"

text \<open>
  The touch handling of a pass, told from the state \<open>x\<close> it starts in. A CONNECT press is a
  new touch inside (70..250, 190..240) with no link and no discoverability; a peer that
  attaches in its delays leaves the link up. A STOP press is a new touch inside
  (195..305, 185..230) with the link up when l. 513 tests it, which is after the CONNECT
  branch; the two rectangles overlap.
\<close>

definition touching :: "tick_env \<Rightarrow> bool" where
  "touching env = (touch_x env > 0 \<and> touch_y env > 0)"

definition connectPressed :: "tick_env \<Rightarrow> state \<Rightarrow> bool" where
  "connectPressed env x =
     (\<not> btConnected x \<and> \<not> btDiscoverable x \<and> touching env \<and> \<not> lastTouchState x
      \<and> touch_x env \<ge> 70 \<and> touch_x env \<le> 250 \<and> touch_y env \<ge> 190 \<and> touch_y env \<le> 240)"

definition linkAfterConnect :: "tick_env \<Rightarrow> bool" where
  "linkAfterConnect env =
     linkAfter (ev_connect_settle env) (linkAfter (ev_connect_feedback env) False)"

definition stopPressed :: "tick_env \<Rightarrow> state \<Rightarrow> bool" where
  "stopPressed env x =
     (touching env \<and> \<not> lastTouchState x
      \<and> touch_x env \<ge> 195 \<and> touch_x env \<le> 305 \<and> touch_y env \<ge> 185 \<and> touch_y env \<le> 230
      \<and> (if connectPressed env x then linkAfterConnect env else btConnected x))"

definition connectEffects :: "tick_env \<Rightarrow> effect list" where
  "connectEffects env =
     [ButtonFeedback CONNECT, Delay 100] @ eventPrints (ev_connect_feedback env)
     @ [EnableSSP, SerialPrint ''Connection mode enabled for 60 seconds'', Delay 200]
     @ eventPrints (ev_connect_settle env)"

definition stopEffects :: "tick_env \<Rightarrow> effect list" where
  "stopEffects env =
     [ButtonFeedback STOP, Delay 100] @ eventPrints (ev_stop_feedback env)
     @ [Disconnect, SerialPrint ''Disconnected by user'', Delay 200]
     @ eventPrints (ev_stop_settle env)"

definition inputEffects :: "tick_env \<Rightarrow> state \<Rightarrow> effect list" where
  "inputEffects env x =
     (if connectPressed env x then connectEffects env else [])
     @ (if stopPressed env x then stopEffects env else [])"

text \<open>
  After the touch handling: whether the link is up, and whether the discoverability window
  is open, without a link, and older than the fixed duration at the reading of l. 533.
\<close>

definition streamsAfterTouch :: "tick_env \<Rightarrow> state \<Rightarrow> bool" where
  "streamsAfterTouch env x =
     (if stopPressed env x then linkAfter (ev_stop_settle env) False
      else if connectPressed env x then linkAfterConnect env
      else btConnected x)"

definition timeoutDue :: "tick_env \<Rightarrow> state \<Rightarrow> bool" where
  "timeoutDue env x =
     (\<not> stopPressed env x
      \<and> (if connectPressed env x
          then \<not> linkAfterConnect env \<and> ms_timeout env - ms_connect env > DISCOVERABLE_DURATION
          else btDiscoverable x \<and> \<not> btConnected x
               \<and> ms_timeout env - discoverableStartTime x > DISCOVERABLE_DURATION))"

text \<open>The state the touch handling starts in: rendered, with the events of the drawing.\<close>

definition seenByTouch :: "tick_env \<Rightarrow> state \<Rightarrow> state" where
  "seenByTouch env s =
     fold btCallback (ev_display env)
       (updateDisplay (ms_redraw env) (ms_now env) (ms_remaining env) s)"

text \<open>
  Modelled from the spec: \<^verbatim>\<open>i2s_read\<close> belongs to the ESP-IDF driver, outside the
  repository. The contract of the capture (section 4.1 of the specification; \<^verbatim>\<open>i2s_read\<close> is called for
  \<^verbatim>\<open>DATA_SIZE\<close> bytes with \<^verbatim>\<open>portMAX_DELAY\<close>): a read that succeeds has stored a whole
  block, and no read stores more than the buffer holds.
\<close>

definition wholeBlocks :: "tick_env \<Rightarrow> bool" where
  "wholeBlocks env =
     (i2s_bytesRead env \<le> DATA_SIZE \<and> i2s_bytesRead env \<le> length (i2s_data env)
      \<and> (i2s_ok env \<longrightarrow> i2s_bytesRead env = DATA_SIZE))"

fun stepWholeBlocks :: "step \<Rightarrow> bool" where
  "stepWholeBlocks (Tick env) = wholeBlocks env"
| "stepWholeBlocks (Event ev) = True"

text \<open>What the level analysis relies on between passes.\<close>

definition analyzable :: "state \<Rightarrow> bool" where
  "analyzable s = (length (audioBuffer s) = DATA_SIZE \<and> 0 \<le> lastLevel s \<and> lastLevel s \<le> 100)"

fun isTick :: "step \<Rightarrow> bool" where
  "isTick (Tick env) = True"
| "isTick (Event ev) = False"

text \<open>No partial-delivery warning among some effects.\<close>

definition noWarning :: "effect list \<Rightarrow> bool" where
  "noWarning x = (\<forall>e \<in> set x. case e of Warning w m \<Rightarrow> False | _ \<Rightarrow> True)"

text \<open>The number of full redraws in a run from the initial state.\<close>

definition redrawsAfter :: "step list \<Rightarrow> (error + nat) option" where
  "redrawsAfter steps = map_option (map_sum id (\<lambda>s. fullRedraws (trace s))) (exec steps initial)"

section \<open>Properties\<close>

subsection \<open>The level analysis\<close>

lemma sint16_abs: "\<bar>sint (w :: 16 word)\<bar> \<le> 32768"
  using sint_ge [of w] sint_lt [of w] by simp

lemma sample16_abs: "\<bar>sample16 buffer i\<bar> \<le> 32768"
  unfolding sample16_def by (rule sint16_abs)

lemma sample_at_eq: "2 * i + 1 < length buffer \<Longrightarrow> sample_at buffer i = Inr (sample16 buffer i)"
  by (simp add: sample_at_def)

lemma sint16_of_nat:
  assumes "n < 65536"
  shows "sint (word_of_nat n :: 16 word) = (if int n < 32768 then int n else int n - 65536)"
proof -
  have "(word_of_nat n :: 16 word) = word_of_int (int n)" by simp
  then have "sint (word_of_nat n :: 16 word) = signed_take_bit 15 (int n)"
    by (simp only: sint_sbintrunc') simp
  also have "\<dots> = take_bit 16 (int n + 32768) - 32768"
    using signed_take_bit_eq_take_bit_shift [of 15 "int n"] by simp
  also have "\<dots> = (int n + 32768) mod 65536 - 32768"
    by (simp add: take_bit_eq_mod)
  also have "\<dots> = (if int n < 32768 then int n else int n - 65536)"
  proof (cases "int n < 32768")
    case True
    then have "(int n + 32768) mod 65536 = int n + 32768" by (intro mod_pos_pos_trivial) simp_all
    then show ?thesis using True by simp
  next
    case False
    have e: "int n + 32768 = (int n - 32768) + 65536" by simp
    have "(int n - 32768 + 65536) mod 65536 = (int n - 32768) mod 65536"
      by (rule mod_add_self2)
    also have "\<dots> = int n - 32768"
      using False assms by (intro mod_pos_pos_trivial) simp_all
    finally have "(int n + 32768) mod 65536 = int n - 32768" by (subst e)
    then show ?thesis using False by simp
  qed
  finally show ?thesis .
qed

lemma u8_bound: "unat (w :: u8) < 256"
  using unsigned_less [of w, where 'a = nat] by simp

lemma sample16_le16: "sample16 buffer i = le16 (buffer ! (2 * i)) (buffer ! (2 * i + 1))"
proof -
  define lo where "lo = buffer ! (2 * i)"
  define hi where "hi = buffer ! (2 * i + 1)"
  have b: "unat lo + 256 * unat hi < 65536" using u8_bound [of lo] u8_bound [of hi] by simp
  have c: "int (unat lo + 256 * unat hi) = uint lo + 256 * uint hi" by simp
  have "sample16 buffer i = sint (word_of_nat (unat lo + 256 * unat hi) :: 16 word)"
    by (simp only: sample16_def lo_def hi_def)
  also have "\<dots> = (if int (unat lo + 256 * unat hi) < 32768 then int (unat lo + 256 * unat hi)
                   else int (unat lo + 256 * unat hi) - 65536)"
    by (rule sint16_of_nat [OF b])
  also have "\<dots> = le16 lo hi" by (simp only: c le16_def Let_def)
  finally show ?thesis by (simp only: lo_def hi_def)
qed

lemma spec_samples_nth:
  "spec_samples xs = map (\<lambda>i. le16 (xs ! (2 * i)) (xs ! (2 * i + 1))) [0..<length xs div 2]"
proof (induction xs rule: spec_samples.induct)
  case (1 lo hi rest)
  have "map (\<lambda>i. le16 ((lo # hi # rest) ! (2 * i)) ((lo # hi # rest) ! (2 * i + 1)))
          [0..<Suc (length rest div 2)]
        = le16 lo hi # map (\<lambda>i. le16 (rest ! (2 * i)) (rest ! (2 * i + 1))) [0..<length rest div 2]"
    by (simp add: map_upt_Suc del: upt_Suc)
  then show ?case using 1 by simp
qed simp_all

lemma blockSamples_eq:
  assumes "len \<le> length buffer"
  shows "blockSamples buffer len = map (sample16 buffer) [0..<len div 2]"
proof -
  have "map (\<lambda>i. le16 (take len buffer ! (2 * i)) (take len buffer ! (2 * i + 1))) [0..<len div 2]
      = map (sample16 buffer) [0..<len div 2]"
  proof (rule map_cong [OF refl])
    fix i assume "i \<in> set [0..<len div 2]"
    then have "2 * i + 1 < len" by auto
    then show "le16 (take len buffer ! (2 * i)) (take len buffer ! (2 * i + 1)) = sample16 buffer i"
      by (simp add: sample16_le16)
  qed
  then show ?thesis using assms by (simp add: blockSamples_def spec_samples_nth min_def)
qed

lemma scanSamples_eq:
  "2 * n \<le> length buffer \<Longrightarrow> i \<le> n \<Longrightarrow> 0 \<le> acc \<Longrightarrow> acc + int (n - i) * 32768 \<le> 2147483647 \<Longrightarrow>
   scanSamples buffer n i acc m =
     Inr (acc + sum_list (map (\<lambda>k. \<bar>sample16 buffer k\<bar>) [i..<n]),
          fold max (map (\<lambda>k. \<bar>sample16 buffer k\<bar>) [i..<n]) m)"
proof (induction "n - i" arbitrary: i acc m)
  case 0
  then show ?case by (simp add: scanSamples.simps)
next
  case (Suc d)
  then have lt: "i < n" by simp
  have rng: "2 * i + 1 < length buffer" using lt Suc.prems(1) by simp
  let ?v = "\<bar>sample16 buffer i\<bar>"
  have v: "0 \<le> ?v" "?v \<le> 32768" using sample16_abs [of buffer i] by simp_all
  have bound: "int (n - i) = int (n - Suc i) + 1" using lt by simp
  have nn: "0 \<le> int (n - Suc i)" by simp
  have ok: "int32 (acc + ?v)"
    unfolding int32_def using v Suc.prems(3,4) bound nn by linarith
  have IH: "scanSamples buffer n (Suc i) (acc + ?v) (max ?v m) =
     Inr (acc + ?v + sum_list (map (\<lambda>k. \<bar>sample16 buffer k\<bar>) [Suc i..<n]),
          fold max (map (\<lambda>k. \<bar>sample16 buffer k\<bar>) [Suc i..<n]) (max ?v m))"
  proof (rule Suc.hyps(1))
    show "d = n - Suc i" using Suc.hyps(2) by simp
    show "2 * n \<le> length buffer" by (rule Suc.prems(1))
    show "Suc i \<le> n" using lt by simp
    show "0 \<le> acc + ?v" using v Suc.prems(3) by simp
    show "acc + ?v + int (n - Suc i) * 32768 \<le> 2147483647"
      using v Suc.prems(4) bound by linarith
  qed
  have m: "(if ?v > m then ?v else m) = max ?v m" by (simp add: max_def)
  have "scanSamples buffer n i acc m = scanSamples buffer n (Suc i) (acc + ?v) (max ?v m)"
    using lt ok by (subst scanSamples.simps) (simp add: sample_at_eq [OF rng] m Let_def)
  also note IH
  finally show ?case using lt by (simp add: upt_conv_Cons)
qed

lemma sdiv_nonneg: "0 \<le> a \<Longrightarrow> 0 < b \<Longrightarrow> a sdiv b = a div (b :: int)"
  by (simp add: signed_divide_int_def sgn_if)

lemma sdiv_neg: "a < 0 \<Longrightarrow> 0 < b \<Longrightarrow> a sdiv b = - (- a div (b :: int))"
  by (simp add: signed_divide_int_def sgn_if)

lemma constrain_map_arduino:
  "constrain (map_arduino c 100 2000 0 100) 0 100 = max 0 (min 100 ((c - 100) * (100 - 0) div (2000 - 100) + 0))"
proof (cases "100 \<le> c")
  case True
  then have "(c - 100) * 100 sdiv 1900 = (c - 100) * 100 div 1900"
    by (intro sdiv_nonneg) simp_all
  then show ?thesis by (simp add: constrain_def map_arduino_def max_def min_def)
next
  case False
  then have neg: "(c - 100) * 100 < 0" by simp
  have a: "(c - 100) * 100 sdiv 1900 \<le> 0"
    using neg by (subst sdiv_neg) (simp_all add: pos_imp_zdiv_nonneg_iff)
  have b: "(c - 100) * 100 div 1900 < 0"
    using neg by (simp add: neg_imp_zdiv_neg_iff)
  have "(c - 100) * 100 sdiv 1900 < 0 \<or> (c - 100) * 100 sdiv 1900 = 0" using a by linarith
  then show ?thesis using b by (auto simp add: constrain_def map_arduino_def max_def min_def)
qed

lemma sum_list_bounds:
  "\<forall>x \<in> set xs. 0 \<le> x \<and> x \<le> (c :: int) \<Longrightarrow>
   0 \<le> sum_list xs \<and> sum_list xs \<le> c * int (length xs)"
proof (induction xs)
  case Nil
  then show ?case by simp
next
  case (Cons a xs)
  then have "0 \<le> a" "a \<le> c" "0 \<le> sum_list xs" "sum_list xs \<le> c * int (length xs)"
    by simp_all
  then show ?case by (simp add: algebra_simps)
qed

lemma fold_max_Max:
  assumes "xs \<noteq> []" "\<forall>x \<in> set xs. (0 :: int) \<le> x"
  shows "fold max xs 0 = Max (set xs)"
proof -
  obtain a ys where xs: "xs = a # ys" using assms(1) by (cases xs) auto
  then have "0 \<le> a" using assms(2) by simp
  then have "fold max xs 0 = fold max ys a" by (simp add: xs max_def)
  also have "\<dots> = Max (set (a # ys))" by (simp only: Max.set_eq_fold)
  finally show ?thesis by (simp only: xs)
qed

lemma abs_samples:
  "len \<le> length buffer \<Longrightarrow>
   map (\<lambda>k. \<bar>sample16 buffer k\<bar>) [0..<len div 2] = map abs (blockSamples buffer len)"
  by (simp add: blockSamples_eq comp_def)

lemma abs_samples_range:
  "len \<le> length buffer \<Longrightarrow> x \<in> set (map abs (blockSamples buffer len)) \<Longrightarrow>
   0 \<le> x \<and> x \<le> 32768"
  using sample16_abs by (auto simp: blockSamples_eq)

lemma instantLevel_eq:
  assumes "2 \<le> len" "len \<le> length buffer" "len div 2 \<le> 65535"
  shows "instantLevel buffer len = Inr (spec_mapped (blockSamples buffer len))"
proof -
  let ?n = "len div 2"
  let ?xs = "map abs (blockSamples buffer len)"
  let ?S = "sum_list ?xs"
  let ?M = "fold max ?xs 0"
  have n: "0 < ?n" using assms(1) by simp
  have len_xs: "length ?xs = ?n" using assms(2) by (simp add: blockSamples_eq)
  have ne: "?xs \<noteq> []" using n len_xs by auto
  have rng: "\<forall>x \<in> set ?xs. 0 \<le> x \<and> x \<le> 32768"
    using abs_samples_range [OF assms(2)] by blast
  have S: "0 \<le> ?S" "?S \<le> 32768 * int ?n"
    using sum_list_bounds [OF rng] len_xs by simp_all
  have scan: "scanSamples buffer ?n 0 0 0 = Inr (?S, ?M)"
  proof -
    have "0 + int (?n - 0) * 32768 \<le> 2147483647" using assms(3) by simp
    moreover have "2 * ?n \<le> length buffer" using assms(2) by simp
    ultimately have "scanSamples buffer ?n 0 0 0 =
       Inr (0 + sum_list (map (\<lambda>k. \<bar>sample16 buffer k\<bar>) [0..<?n]),
            fold max (map (\<lambda>k. \<bar>sample16 buffer k\<bar>) [0..<?n]) 0)"
      by (intro scanSamples_eq) simp_all
    then show ?thesis by (simp only: abs_samples [OF assms(2)] add_0)
  qed
  have M: "?M = spec_peak (blockSamples buffer len)"
    unfolding spec_peak_def using ne rng
    by (intro fold_max_Max) auto
  have Mr: "0 \<le> ?M" "?M \<le> 32768"
  proof -
    have "Max (set ?xs) \<in> set ?xs" using ne by (intro Max_in) auto
    then show "0 \<le> ?M" "?M \<le> 32768"
      using abs_samples_range [OF assms(2), of "Max (set ?xs)"] M
      by (simp_all add: spec_peak_def)
  qed
  define avg where "avg = ?S sdiv int ?n"
  have avg: "avg = spec_mean (blockSamples buffer len)"
    unfolding avg_def spec_mean_def using S(1) n len_xs by (subst sdiv_nonneg) simp_all
  have avg_r: "0 \<le> avg" "avg \<le> 32768"
  proof -
    have e: "avg = ?S div int ?n" unfolding avg_def using S(1) n by (subst sdiv_nonneg) simp_all
    show "0 \<le> avg" using e S(1) n by (simp add: pos_imp_zdiv_nonneg_iff)
    have "?S div int ?n \<le> (32768 * int ?n) div int ?n"
      using S(2) n by (intro zdiv_mono1) simp_all
    then show "avg \<le> 32768" using e n by simp
  qed
  define combined where "combined = (avg * 3 + ?M) sdiv 4"
  have comb: "combined = spec_combined (blockSamples buffer len)"
    unfolding combined_def spec_combined_def using avg_r Mr avg M
    by (subst sdiv_nonneg) (simp_all add: mult.commute)
  have comb_r: "0 \<le> combined" "combined \<le> 32768"
  proof -
    have e: "combined = (avg * 3 + ?M) div 4"
      unfolding combined_def using avg_r Mr by (subst sdiv_nonneg) simp_all
    show "0 \<le> combined" "combined \<le> 32768" using e avg_r Mr by linarith+
  qed
  have ok: "int32 (avg * 3) \<and> int32 (avg * 3 + ?M) \<and> int32 (combined - 100)
      \<and> int32 ((combined - 100) * 100)"
    using avg_r Mr comb_r by (simp add: int32_def)
  have "instantLevel buffer len = Inr (constrain (map_arduino combined 100 2000 0 100) 0 100)"
    unfolding instantLevel_def Let_def using scan n ok
    by (simp add: avg_def [symmetric] combined_def [symmetric])
  then show ?thesis
    by (simp only: constrain_map_arduino spec_mapped_def comb)
qed

lemma spec_mapped_range: "0 \<le> spec_mapped xs \<and> spec_mapped xs \<le> 100"
  by (simp add: spec_mapped_def)

lemma validBlock_bounds:
  "validBlock buffer len \<Longrightarrow> 2 \<le> len \<and> len \<le> length buffer \<and> len div 2 \<le> 65535"
  by (auto simp: validBlock_def DATA_SIZE_def)

lemma calculateAudioLevel_eq:
  assumes "validBlock buffer len" "0 \<le> lastLevel s" "lastLevel s \<le> 100"
  shows "calculateAudioLevel buffer len s =
     Inr (s\<lparr>audioLevel := spec_level (blockSamples buffer len) (lastLevel s),
            lastLevel := spec_level (blockSamples buffer len) (lastLevel s)\<rparr>)"
proof -
  let ?m = "spec_mapped (blockSamples buffer len)"
  have il: "instantLevel buffer len = Inr ?m"
    using validBlock_bounds [OF assms(1)] by (intro instantLevel_eq) simp_all
  have m: "0 \<le> ?m" "?m \<le> 100" using spec_mapped_range [of "blockSamples buffer len"] by simp_all
  have ok: "int32 (?m * 7) \<and> int32 (lastLevel s * 3) \<and> int32 (?m * 7 + lastLevel s * 3)"
    using m assms(2,3) by (simp add: int32_def)
  have d: "(?m * 7 + lastLevel s * 3) sdiv 10 = (?m * 7 + lastLevel s * 3) div 10"
    using m assms(2) by (intro sdiv_nonneg) simp_all
  show ?thesis
    unfolding calculateAudioLevel_def using il ok d by (simp add: spec_level_def Let_def)
qed

lemma spec_level_range:
  "0 \<le> p \<Longrightarrow> p \<le> 100 \<Longrightarrow> 0 \<le> spec_level xs p \<and> spec_level xs p \<le> 100"
  using spec_mapped_range [of xs] unfolding spec_level_def by linarith

lemma analyzeAll_invariant:
  "\<forall>(buffer, len) \<in> set blocks. validBlock buffer len \<Longrightarrow>
   0 \<le> lastLevel s \<Longrightarrow> lastLevel s \<le> 100 \<Longrightarrow> 0 \<le> audioLevel s \<Longrightarrow> audioLevel s \<le> 100 \<Longrightarrow>
   \<exists>s'. analyzeAll blocks s = Inr s' \<and> 0 \<le> audioLevel s' \<and> audioLevel s' \<le> 100
        \<and> 0 \<le> lastLevel s' \<and> lastLevel s' \<le> 100"
proof (induction blocks arbitrary: s)
  case Nil
  then show ?case by simp
next
  case (Cons b blocks)
  obtain buffer len where b: "b = (buffer, len)" by (cases b)
  have v: "validBlock buffer len" using Cons.prems(1) b by simp
  let ?l = "spec_level (blockSamples buffer len) (lastLevel s)"
  let ?s1 = "s\<lparr>audioLevel := ?l, lastLevel := ?l\<rparr>"
  have step: "calculateAudioLevel buffer len s = Inr ?s1"
    using v Cons.prems(2,3) by (rule calculateAudioLevel_eq)
  have r: "0 \<le> ?l" "?l \<le> 100"
    using spec_level_range [OF Cons.prems(2,3), of "blockSamples buffer len"] by simp_all
  have "\<exists>s'. analyzeAll blocks ?s1 = Inr s' \<and> 0 \<le> audioLevel s' \<and> audioLevel s' \<le> 100
        \<and> 0 \<le> lastLevel s' \<and> lastLevel s' \<le> 100"
    using Cons.prems(1) r by (intro Cons.IH) simp_all
  then show ?case by (simp add: b step)
qed

subsection \<open>Claims about the level analysis\<close>

text \<open>
  The analysis needs a sample: called with a single byte, \<^verbatim>\<open>sampleCount = length / 2\<close> is
  zero and \<^verbatim>\<open>sum / sampleCount\<close> traps. The capture never delivers such a block.
\<close>

lemma calculateAudioLevel_traps_without_a_sample:
  "calculateAudioLevel buffer 1 s = Inl DivideByZero"
  by (simp add: calculateAudioLevel_def instantLevel_def scanSamples.simps)

text \<open>
  C5: for every block and every previous output, the code computes exactly the level of the
  specification over the block's 16-bit samples: mean and peak absolute amplitude,
  \<open>combined = (3*mean + peak) / 4\<close>, the linear map of 100-2000 to 0-100 clamped to
  [0,100], and \<open>new = (mapped*7 + previous*3) / 10\<close>, with integer quotients. The samples
  on the right are read off the bytes of the block in order, not through the code's indexing.
  The code's truncating divisions and the specification's quotients agree: every dividend is
  non-negative except below the input range of the map, where both results clamp to 0.
\<close>

theorem calculateAudioLevel_computes_spec_level:
  "validBlock buffer len \<Longrightarrow> 0 \<le> lastLevel s \<Longrightarrow> lastLevel s \<le> 100 \<Longrightarrow>
   calculateAudioLevel buffer len s =
     Inr (s\<lparr>audioLevel := spec_level (blockSamples buffer len) (lastLevel s),
            lastLevel := spec_level (blockSamples buffer len) (lastLevel s)\<rparr>)"
  by (rule calculateAudioLevel_eq)

theorem calculateAudioLevel_computes_spec_level_witness:
  "blockSamples [24, 252, 232, 3, 0, 0, 208, 7] 8 = [- 1000, 1000, 0, 2000]
   \<and> spec_level [- 1000, 1000, 0, 2000] 50 = 57
   \<and> calculateAudioLevel [24, 252, 232, 3, 0, 0, 208, 7] 8
         (initial\<lparr>audioLevel := 50, lastLevel := 50\<rparr>)
       = Inr (initial\<lparr>audioLevel := 57, lastLevel := 57\<rparr>)
   \<and> blockSamples [24, 252, 232, 3, 0, 0, 208, 7] 7 = [- 1000, 1000, 0]
   \<and> spec_level [- 1000, 1000, 0] 50 = 38
   \<and> calculateAudioLevel [24, 252, 232, 3, 0, 0, 208, 7] 7
         (initial\<lparr>audioLevel := 50, lastLevel := 50\<rparr>)
       = Inr (initial\<lparr>audioLevel := 38, lastLevel := 38\<rparr>)"
proof -
  let ?B = "[24, 252, 232, 3, 0, 0, 208, 7] :: u8 list"
  let ?S = "initial\<lparr>audioLevel := 50, lastLevel := 50\<rparr>"
  have b8: "blockSamples ?B 8 = [- 1000, 1000, 0, 2000]"
    by (simp add: blockSamples_def le16_def)
  have b7: "blockSamples ?B 7 = [- 1000, 1000, 0]"
    by (simp add: blockSamples_def le16_def)
  have l8: "spec_level [- 1000, 1000, 0, 2000] 50 = 57"
    by (simp add: spec_level_def spec_mapped_def spec_combined_def spec_mean_def spec_peak_def)
  have l7: "spec_level [- 1000, 1000, 0] 50 = 38"
    by (simp add: spec_level_def spec_mapped_def spec_combined_def spec_mean_def spec_peak_def)
  have v: "validBlock ?B 8" "validBlock ?B 7" "0 \<le> lastLevel ?S" "lastLevel ?S \<le> 100"
    by (simp_all add: validBlock_def DATA_SIZE_def)
  have c8: "calculateAudioLevel ?B 8 ?S = Inr (initial\<lparr>audioLevel := 57, lastLevel := 57\<rparr>)"
    using calculateAudioLevel_computes_spec_level [OF v(1) v(3) v(4)] by (simp add: b8 l8)
  have c7: "calculateAudioLevel ?B 7 ?S = Inr (initial\<lparr>audioLevel := 38, lastLevel := 38\<rparr>)"
    using calculateAudioLevel_computes_spec_level [OF v(2) v(3) v(4)] by (simp add: b7 l7)
  show ?thesis using b8 l8 c8 b7 l7 c7 by blast
qed

text \<open>
  C6: for every sequence of analyzer calls on blocks, starting from the initial smoothing
  state, every call returns and the output \<^verbatim>\<open>audioLevel\<close> lies in [0,100].
\<close>

theorem analyzer_output_bounded:
  "\<forall>(buffer, len) \<in> set blocks. validBlock buffer len \<Longrightarrow>
   \<exists>s'. analyzeAll blocks initial = Inr s' \<and> 0 \<le> audioLevel s' \<and> audioLevel s' \<le> 100"
proof -
  assume "\<forall>(buffer, len) \<in> set blocks. validBlock buffer len"
  then have "\<exists>s'. analyzeAll blocks initial = Inr s' \<and> 0 \<le> audioLevel s' \<and> audioLevel s' \<le> 100
        \<and> 0 \<le> lastLevel s' \<and> lastLevel s' \<le> 100"
    by (rule analyzeAll_invariant) (simp_all add: initial_def)
  then show ?thesis by blast
qed

theorem analyzer_output_bounded_witness:
  "\<exists>s'. analyzeAll [([0, 128], 2), ([140, 0], 2)] initial = Inr s'
     \<and> 0 \<le> audioLevel s' \<and> audioLevel s' \<le> 100"
  by (rule analyzer_output_bounded) (simp add: validBlock_def DATA_SIZE_def)

lemma div10_bounds:
  fixes x :: int
  shows "10 * (x div 10) \<le> x \<and> x < 10 * (x div 10) + 10"
proof -
  have "x = 10 * (x div 10) + x mod 10" by simp
  moreover have "0 \<le> x mod 10" "x mod 10 < 10" by simp_all
  ultimately show ?thesis by linarith
qed

lemma blend_rising:
  fixes m p :: int
  assumes "p \<le> m"
  shows "p \<le> (m * 7 + p * 3) div 10 \<and> 10 * ((m * 7 + p * 3) div 10 - p) \<le> 7 * (m - p)"
proof -
  define q where "q = (m * 7 + p * 3) div 10"
  have b: "10 * q \<le> m * 7 + p * 3" "m * 7 + p * 3 < 10 * q + 10"
    using div10_bounds [of "m * 7 + p * 3"] by (simp_all add: q_def)
  have "10 * p < 10 * q + 10" using b(2) assms by linarith
  then have "p \<le> q" by linarith
  moreover have "10 * (q - p) \<le> 7 * (m - p)" using b(1) by (simp add: algebra_simps)
  ultimately show ?thesis by (simp add: q_def)
qed

lemma blend_falling:
  fixes m p :: int
  assumes "m < p"
  shows "(m * 7 + p * 3) div 10 < p
     \<and> 10 * (p - (m * 7 + p * 3) div 10) \<le> 7 * (p - m) + 9"
proof -
  define q where "q = (m * 7 + p * 3) div 10"
  have b: "10 * q \<le> m * 7 + p * 3" "m * 7 + p * 3 < 10 * q + 10"
    using div10_bounds [of "m * 7 + p * 3"] by (simp_all add: q_def)
  have "10 * q < 10 * p" using b(1) assms by linarith
  then have "q < p" by linarith
  moreover have "10 * (p - q) \<le> 7 * (p - m) + 9" using b(2) by (simp add: algebra_simps)
  ultimately show ?thesis by (simp add: q_def)
qed

lemma blend_step:
  fixes m p :: int
  assumes "0 \<le> m" "m \<le> 100" "0 \<le> p" "p \<le> 100"
  shows "\<bar>(m * 7 + p * 3) div 10 - p\<bar> \<le> 70"
proof -
  define q where "q = (m * 7 + p * 3) div 10"
  have b: "10 * q \<le> m * 7 + p * 3" "m * 7 + p * 3 < 10 * q + 10"
    using div10_bounds [of "m * 7 + p * 3"] by (simp_all add: q_def)
  have "10 * q - 10 * p \<le> 700" using b(1) assms by linarith
  then have 1: "q - p \<le> 70" by linarith
  have "10 * p - 10 * q < 710" using b(2) assms by linarith
  then have 2: "p - q \<le> 70" by linarith
  show ?thesis using 1 2 by (simp add: q_def abs_le_iff)
qed

text \<open>
  C7, as stated: \<open>|new - previous| \<le> 7/10 * |mapped - previous|\<close>. The quotient by 10
  rounds the new level down, so a falling level moves further than seven tenths of the gap:
  after a first block that leaves the level at 1, a silent block maps to 0 and the new level is
  0, a change of 1 against a bound of 0.7.
\<close>

theorem blend_bound_fails_when_falling:
  "calculateAudioLevel [140, 0] 2 initial = Inr (initial\<lparr>audioLevel := 1, lastLevel := 1\<rparr>)
   \<and> instantLevel [0, 0] 2 = Inr 0
   \<and> calculateAudioLevel [0, 0] 2 (initial\<lparr>audioLevel := 1, lastLevel := 1\<rparr>)
       = Inr (initial\<lparr>audioLevel := 0, lastLevel := 0\<rparr>)
   \<and> \<not> (10 * \<bar>0 - 1\<bar> \<le> 7 * \<bar>0 - (1 :: int)\<bar>)"
  by (simp add: calculateAudioLevel_def instantLevel_def scanSamples.simps sample_at_def sample16_def
      int32_def map_arduino_def constrain_def signed_divide_int_def initial_def)

text \<open>
  C7, amended: the change is seven tenths of the gap to the mapped level, rounded: when the
  mapped level is not below the previous output the output does not fall and
  \<open>10 * (new - previous) \<le> 7 * (mapped - previous)\<close>; when it is below, the output falls
  and \<open>10 * (previous - new) \<le> 7 * (previous - mapped) + 9\<close>, less than one unit more.
  In both cases the output moves by at most 70, so no single call takes it from 0 to 100.
\<close>

theorem blend_bound_rounded:
  assumes "validBlock buffer len" "0 \<le> lastLevel s" "lastLevel s \<le> 100"
  shows "\<exists>mapped s'. instantLevel buffer len = Inr mapped
           \<and> calculateAudioLevel buffer len s = Inr s'
           \<and> (lastLevel s \<le> mapped \<longrightarrow>
                lastLevel s \<le> audioLevel s'
                \<and> 10 * (audioLevel s' - lastLevel s) \<le> 7 * (mapped - lastLevel s))
           \<and> (mapped < lastLevel s \<longrightarrow>
                audioLevel s' < lastLevel s
                \<and> 10 * (lastLevel s - audioLevel s') \<le> 7 * (lastLevel s - mapped) + 9)
           \<and> \<bar>audioLevel s' - lastLevel s\<bar> \<le> 70"
proof -
  let ?m = "spec_mapped (blockSamples buffer len)"
  let ?l = "spec_level (blockSamples buffer len) (lastLevel s)"
  have il: "instantLevel buffer len = Inr ?m"
    using validBlock_bounds [OF assms(1)] by (intro instantLevel_eq) simp_all
  have c: "calculateAudioLevel buffer len s = Inr (s\<lparr>audioLevel := ?l, lastLevel := ?l\<rparr>)"
    using assms by (rule calculateAudioLevel_eq)
  have m: "0 \<le> ?m" "?m \<le> 100" using spec_mapped_range [of "blockSamples buffer len"] by simp_all
  have l: "?l = (?m * 7 + lastLevel s * 3) div 10" by (simp add: spec_level_def)
  have 1: "lastLevel s \<le> ?m \<longrightarrow> lastLevel s \<le> ?l \<and> 10 * (?l - lastLevel s) \<le> 7 * (?m - lastLevel s)"
    unfolding l using blend_rising [of "lastLevel s" ?m] by blast
  have 2: "?m < lastLevel s \<longrightarrow> ?l < lastLevel s \<and> 10 * (lastLevel s - ?l) \<le> 7 * (lastLevel s - ?m) + 9"
    unfolding l using blend_falling [of ?m "lastLevel s"] by blast
  have 3: "\<bar>?l - lastLevel s\<bar> \<le> 70"
    unfolding l using m assms(2,3) by (intro blend_step)
  show ?thesis using il c 1 2 3 by simp
qed

theorem blend_bound_rounded_witness:
  "(\<exists>mapped s'. instantLevel [0, 128] 2 = Inr mapped
       \<and> calculateAudioLevel [0, 128] 2 initial = Inr s'
       \<and> lastLevel initial \<le> mapped \<and> lastLevel initial \<le> audioLevel s'
       \<and> 10 * (audioLevel s' - lastLevel initial) \<le> 7 * (mapped - lastLevel initial)
       \<and> \<bar>audioLevel s' - lastLevel initial\<bar> \<le> 70)
   \<and> (\<exists>mapped s'. instantLevel [0, 0] 2 = Inr mapped
       \<and> calculateAudioLevel [0, 0] 2 (initial\<lparr>audioLevel := 1, lastLevel := 1\<rparr>) = Inr s'
       \<and> mapped < lastLevel (initial\<lparr>audioLevel := 1, lastLevel := 1\<rparr>)
       \<and> audioLevel s' < lastLevel (initial\<lparr>audioLevel := 1, lastLevel := 1\<rparr>)
       \<and> 10 * (lastLevel (initial\<lparr>audioLevel := 1, lastLevel := 1\<rparr>) - audioLevel s')
            \<le> 7 * (lastLevel (initial\<lparr>audioLevel := 1, lastLevel := 1\<rparr>) - mapped) + 9)"
proof
  have up: "instantLevel [0, 128] 2 = Inr 100"
    by (simp add: instantLevel_def scanSamples.simps sample_at_def sample16_def int32_def
        map_arduino_def constrain_def signed_divide_int_def)
  have "validBlock [0, 128] 2" "0 \<le> lastLevel initial" "lastLevel initial \<le> 100"
    by (simp_all add: validBlock_def DATA_SIZE_def initial_def)
  from blend_bound_rounded [OF this] up
  show "\<exists>mapped s'. instantLevel [0, 128] 2 = Inr mapped
       \<and> calculateAudioLevel [0, 128] 2 initial = Inr s'
       \<and> lastLevel initial \<le> mapped \<and> lastLevel initial \<le> audioLevel s'
       \<and> 10 * (audioLevel s' - lastLevel initial) \<le> 7 * (mapped - lastLevel initial)
       \<and> \<bar>audioLevel s' - lastLevel initial\<bar> \<le> 70"
    by (auto simp add: initial_def)
next
  let ?S = "initial\<lparr>audioLevel := 1, lastLevel := 1\<rparr>"
  have down: "instantLevel [0, 0] 2 = Inr 0"
    by (simp add: instantLevel_def scanSamples.simps sample_at_def sample16_def int32_def
        map_arduino_def constrain_def signed_divide_int_def)
  have "validBlock [0, 0] 2" "0 \<le> lastLevel ?S" "lastLevel ?S \<le> 100"
    by (simp_all add: validBlock_def DATA_SIZE_def)
  from blend_bound_rounded [OF this] down
  show "\<exists>mapped s'. instantLevel [0, 0] 2 = Inr mapped
       \<and> calculateAudioLevel [0, 0] 2 ?S = Inr s'
       \<and> mapped < lastLevel ?S \<and> audioLevel s' < lastLevel ?S
       \<and> 10 * (lastLevel ?S - audioLevel s') \<le> 7 * (lastLevel ?S - mapped) + 9"
    by auto
qed

subsection \<open>The control loop: effects and preserved state\<close>

lemma quietEffects_simps [simp]:
  "quietEffects []"
  "quietEffects (x @ y) = (quietEffects x \<and> quietEffects y)"
  "quietEffects (SerialPrint m # x) = False"
  "quietEffects (Delay n # x) = quietEffects x"
  "quietEffects (ButtonFeedback b # x) = quietEffects x"
  "quietEffects (EnableSSP # x) = quietEffects x"
  "quietEffects (Disconnect # x) = quietEffects x"
  "quietEffects (I2SRead # x) = quietEffects x"
  "quietEffects (BtWrite off k # x) = quietEffects x"
  "quietEffects (Warning w k # x) = quietEffects x"
  by (auto simp: quietEffects_def)

lemma noWarning_simps [simp]:
  "noWarning []"
  "noWarning (x @ y) = (noWarning x \<and> noWarning y)"
  "noWarning (BtWrite off k # x) = noWarning x"
  "noWarning (Delay d # x) = noWarning x"
  "noWarning (SerialPrint m # x) = noWarning x"
  "noWarning (Warning w k # x) = False"
  by (auto simp: noWarning_def)

lemma added_append: "trace s' = trace s @ x \<Longrightarrow> added s s' = x"
  by (simp add: added_def)

lemma fullRedraws_simps [simp]:
  "fullRedraws [] = 0"
  "fullRedraws (x @ y) = fullRedraws x + fullRedraws y"
  by (simp_all add: fullRedraws_def)

lemma fullRedraws_input: "list_all input_effect x \<Longrightarrow> fullRedraws x = 0"
  by (induction x) (auto simp: fullRedraws_def)

lemma fullRedraws_audio: "list_all audio_effect x \<Longrightarrow> fullRedraws x = 0"
  by (induction x) (auto simp: fullRedraws_def)

lemma progress_refl: "progress s [] s"
  by (simp add: progress_def)

lemma progress_trans:
  "progress s x s1 \<Longrightarrow> progress s1 y s2 \<Longrightarrow> progress s (x @ y) s2"
  unfolding progress_def by (cases "currentState s1 = currentState s") auto

lemma progress_emit: "progress s [e] (emit e s)"
  by (simp add: progress_def emit_def currentState_def)

text \<open>Link events: what a sequence of callbacks prints and changes.\<close>

lemma eventPrints_effects:
  "list_all input_effect (eventPrints evs)"
  "list_all audio_effect (eventPrints evs)"
  "noWarning (eventPrints evs)"
  "quietEffects (eventPrints evs) = (eventPrints evs = [])"
  by (induction evs rule: eventPrints.induct) simp_all

lemma linkAfter_quiet: "eventPrints evs = [] \<Longrightarrow> linkAfter evs c = c"
proof (induction evs rule: eventPrints.induct)
  case (4 evs)
  then show ?case by (simp add: linkAfter_def)
qed (simp_all add: linkAfter_def)

lemma events_fields:
  "trace (fold btCallback evs s) = trace s @ eventPrints evs
   \<and> btConnected (fold btCallback evs s) = linkAfter evs (btConnected s)
   \<and> btDiscoverable (fold btCallback evs s) = btDiscoverable s
   \<and> discoverableStartTime (fold btCallback evs s) = discoverableStartTime s
   \<and> lastTouchState (fold btCallback evs s) = lastTouchState s
   \<and> lastDisplayState (fold btCallback evs s) = lastDisplayState s
   \<and> audioBuffer (fold btCallback evs s) = audioBuffer s
   \<and> lastLevel (fold btCallback evs s) = lastLevel s
   \<and> needsFullRedraw (fold btCallback evs s) = (needsFullRedraw s \<or> eventPrints evs \<noteq> [])"
proof (induction evs arbitrary: s)
  case Nil
  show ?case by (simp add: linkAfter_def)
next
  case (Cons ev evs)
  show ?case using Cons.IH [of "btCallback ev s"]
    by (cases ev) (simp_all add: btCallback_def emit_def linkAfter_def)
qed

lemma events_simps:
  "trace (fold btCallback evs s) = trace s @ eventPrints evs"
  "btConnected (fold btCallback evs s) = linkAfter evs (btConnected s)"
  "btDiscoverable (fold btCallback evs s) = btDiscoverable s"
  "discoverableStartTime (fold btCallback evs s) = discoverableStartTime s"
  "lastTouchState (fold btCallback evs s) = lastTouchState s"
  "lastDisplayState (fold btCallback evs s) = lastDisplayState s"
  "audioBuffer (fold btCallback evs s) = audioBuffer s"
  "lastLevel (fold btCallback evs s) = lastLevel s"
  "needsFullRedraw (fold btCallback evs s) = (needsFullRedraw s \<or> eventPrints evs \<noteq> [])"
  using events_fields [of evs s] by simp_all

lemma btConnected_events:
  "btConnected (fold btCallback evs s) = linkAfter evs (btConnected s)"
  by (rule events_simps)

lemma progress_events_exact: "progress s (eventPrints evs) (fold btCallback evs s)"
proof -
  have "quietEffects (eventPrints evs) \<Longrightarrow> linkAfter evs (btConnected s) = btConnected s"
    by (simp add: eventPrints_effects linkAfter_quiet)
  moreover have "eventPrints evs = [] \<Longrightarrow> linkAfter evs (btConnected s) = btConnected s"
    by (rule linkAfter_quiet)
  ultimately show ?thesis
    unfolding progress_def currentState_def
    by (auto simp add: events_simps eventPrints_effects)
qed

lemma progress_events:
  "\<exists>x. progress s x (fold btCallback evs s) \<and> list_all audio_effect x"
  using progress_events_exact [of s evs] eventPrints_effects(2) [of evs] by blast

lemma events_trace:
  "\<exists>x. trace (fold btCallback evs s) = trace s @ x \<and> noWarning x"
  using events_simps(1) [of evs s] eventPrints_effects(3) [of evs] by blast

text \<open>The two button handlers and the touch handling as a whole.\<close>

lemma pressConnect_fields:
  "trace (pressConnect env s) = trace s @ connectEffects env"
  "btConnected (pressConnect env s)
     = linkAfter (ev_connect_settle env) (linkAfter (ev_connect_feedback env) (btConnected s))"
  "btDiscoverable (pressConnect env s)"
  "discoverableStartTime (pressConnect env s) = ms_connect env"
  "needsFullRedraw (pressConnect env s)"
  "lastDisplayState (pressConnect env s) = lastDisplayState s"
  "lastTouchState (pressConnect env s) = lastTouchState s"
  "audioBuffer (pressConnect env s) = audioBuffer s"
  "lastLevel (pressConnect env s) = lastLevel s"
  by (simp_all add: pressConnect_def Let_def events_simps emit_def connectEffects_def)

lemma pressStop_fields:
  "trace (pressStop env s) = trace s @ stopEffects env"
  "btConnected (pressStop env s) = linkAfter (ev_stop_settle env) False"
  "\<not> btDiscoverable (pressStop env s)"
  "discoverableStartTime (pressStop env s) = discoverableStartTime s"
  "needsFullRedraw (pressStop env s)"
  "lastDisplayState (pressStop env s) = lastDisplayState s"
  "lastTouchState (pressStop env s) = lastTouchState s"
  "audioBuffer (pressStop env s) = audioBuffer s"
  "lastLevel (pressStop env s) = lastLevel s"
  by (simp_all add: pressStop_def Let_def events_simps emit_def stopEffects_def)

lemma handleTouch_stages:
  "handleTouch env x =
     (let s1 = (if connectPressed env x then pressConnect env x else x)
      in (if stopPressed env x then pressStop env s1 else s1)\<lparr>lastTouchState := touching env\<rparr>)"
proof -
  define s1 where "s1 = (if connectPressed env x then pressConnect env x else x)"
  have c: "btConnected s1 = (if connectPressed env x then linkAfterConnect env else btConnected x)"
    by (simp add: s1_def pressConnect_fields linkAfterConnect_def connectPressed_def)
  have l: "lastTouchState s1 = lastTouchState x"
    by (simp add: s1_def pressConnect_fields)
  have sp: "(btConnected s1 \<and> (touch_x env > 0 \<and> touch_y env > 0) \<and> \<not> lastTouchState s1
            \<and> touch_x env \<ge> 195 \<and> touch_x env \<le> 305 \<and> touch_y env \<ge> 185 \<and> touch_y env \<le> 230)
          = stopPressed env x"
    unfolding c l by (auto simp add: stopPressed_def touching_def)
  have cp: "(\<not> btConnected x \<and> \<not> btDiscoverable x \<and> (touch_x env > 0 \<and> touch_y env > 0)
            \<and> \<not> lastTouchState x
            \<and> touch_x env \<ge> 70 \<and> touch_x env \<le> 250 \<and> touch_y env \<ge> 190 \<and> touch_y env \<le> 240)
          = connectPressed env x"
    by (auto simp add: connectPressed_def touching_def)
  have "handleTouch env x =
     (if btConnected s1 \<and> (touch_x env > 0 \<and> touch_y env > 0) \<and> \<not> lastTouchState s1
            \<and> touch_x env \<ge> 195 \<and> touch_x env \<le> 305 \<and> touch_y env \<ge> 185 \<and> touch_y env \<le> 230
      then pressStop env s1 else s1)\<lparr>lastTouchState := touch_x env > 0 \<and> touch_y env > 0\<rparr>"
    unfolding handleTouch_def Let_def s1_def cp ..
  then show ?thesis
    unfolding sp Let_def s1_def [symmetric] by (simp add: touching_def)
qed

lemma connectPressed_link: "connectPressed env x \<Longrightarrow> btConnected x = False"
  by (simp add: connectPressed_def)

lemma handleTouch_fields:
  "trace (handleTouch env x) = trace x @ inputEffects env x"
  "btConnected (handleTouch env x) = streamsAfterTouch env x"
  "btDiscoverable (handleTouch env x)
     = (\<not> stopPressed env x \<and> (connectPressed env x \<or> btDiscoverable x))"
  "discoverableStartTime (handleTouch env x)
     = (if connectPressed env x then ms_connect env else discoverableStartTime x)"
  "needsFullRedraw (handleTouch env x)
     = (needsFullRedraw x \<or> connectPressed env x \<or> stopPressed env x)"
  "lastDisplayState (handleTouch env x) = lastDisplayState x"
  "lastTouchState (handleTouch env x) = touching env"
  "audioBuffer (handleTouch env x) = audioBuffer x"
  "lastLevel (handleTouch env x) = lastLevel x"
  unfolding handleTouch_stages Let_def
  by (simp_all add: pressConnect_fields pressStop_fields inputEffects_def streamsAfterTouch_def
      linkAfterConnect_def connectPressed_link)

lemma inputEffects_effects: "list_all input_effect (inputEffects env x)"
  by (simp add: inputEffects_def connectEffects_def stopEffects_def eventPrints_effects)

lemma inputEffects_quiet:
  "quietEffects (inputEffects env x) = (\<not> connectPressed env x \<and> \<not> stopPressed env x)"
  by (simp add: inputEffects_def connectEffects_def stopEffects_def)

lemma progress_handleTouch: "progress x (inputEffects env x) (handleTouch env x)"
  unfolding progress_def currentState_def
  by (auto simp add: handleTouch_fields inputEffects_quiet streamsAfterTouch_def)

lemma timeoutDue_handleTouch:
  "(btDiscoverable (handleTouch env x) \<and> \<not> btConnected (handleTouch env x)
    \<and> ms_timeout env - discoverableStartTime (handleTouch env x) > DISCOVERABLE_DURATION)
   = timeoutDue env x"
  by (auto simp add: handleTouch_fields timeoutDue_def streamsAfterTouch_def)

lemma checkTimeout_handleTouch:
  "checkTimeout env (handleTouch env x) =
     (if timeoutDue env x
      then emit (SerialPrint ''Connection mode timeout'')
             ((handleTouch env x)\<lparr>btDiscoverable := False, needsFullRedraw := True\<rparr>)
      else handleTouch env x)"
  unfolding checkTimeout_def timeoutDue_handleTouch ..

lemma progress_checkTimeout:
  "progress (handleTouch env x)
     (if timeoutDue env x then [SerialPrint ''Connection mode timeout''] else [])
     (checkTimeout env (handleTouch env x))"
  unfolding checkTimeout_handleTouch
  by (simp add: progress_def emit_def currentState_def)

lemma progress_calculateAudioLevel:
  "calculateAudioLevel buffer len s = Inr s' \<Longrightarrow> progress s [] s'"
  by (auto simp: calculateAudioLevel_def progress_def currentState_def Let_def
      split: sum.splits if_splits)

lemma progress_sendLoop:
  assumes "sendLoop wr n k tw s = Some y"
  shows "\<exists>x. progress s x (snd y) \<and> list_all audio_effect x"
proof (induction wr n k tw s y rule: sendLoop.raw_induct)
  case (1 sendLoop wr n k tw s y)
  show ?case
  proof (cases "tw < n \<and> btConnected s")
    case False
    have "snd y = s" using 1(2) by (auto simp add: False)
    then show ?thesis using progress_refl [of s] by (intro exI [of _ "[]"]) simp
  next
    case True
    let ?w = "min (fst (wr k)) (n - tw)"
    let ?s0 = "emit (BtWrite tw (n - tw)) s"
    let ?s1 = "fold btCallback (snd (wr k)) ?s0"
    have p0: "progress s [BtWrite tw (n - tw)] ?s0" by (rule progress_emit)
    obtain x where x: "progress ?s0 x ?s1" "list_all audio_effect x"
      using progress_events by blast
    show ?thesis
    proof (cases "0 < ?w")
      case w: True
      then have "sendLoop wr n (k + 1) (tw + ?w) ?s1 = Some y"
        using 1(2) True by (simp add: Let_def)
      then obtain z where z: "progress ?s1 z (snd y)" "list_all audio_effect z"
        using 1(1) by blast
      show ?thesis
        using progress_trans [OF progress_trans [OF p0 x(1)] z(1)] x(2) z(2)
        by (intro exI [of _ "([BtWrite tw (n - tw)] @ x) @ z"]) simp
    next
      case w: False
      then have "sendLoop wr n (k + 1) tw (emit (Delay 1) ?s1) = Some y"
        using 1(2) True by (simp add: Let_def)
      then obtain z where z: "progress (emit (Delay 1) ?s1) z (snd y)" "list_all audio_effect z"
        using 1(1) by blast
      have d: "progress ?s1 [Delay 1] (emit (Delay 1) ?s1)" by (rule progress_emit)
      show ?thesis
        using progress_trans [OF progress_trans [OF progress_trans [OF p0 x(1)] d] z(1)] x(2) z(2)
        by (intro exI [of _ "(([BtWrite tw (n - tw)] @ x) @ [Delay 1]) @ z"]) simp
    qed
  qed
qed (fact assms)

lemma progress_transmit:
  assumes "transmit wr n s = Some (r, s')"
  shows "\<exists>x. progress s x s' \<and> list_all audio_effect x"
proof -
  obtain s1 where s1: "sendLoop wr n 0 0 s = Some (r, s1)"
    and s': "s' = (if r \<noteq> n then emit (Warning r n) s1 else s1)"
    using assms by (auto simp: transmit_def split: option.splits)
  obtain x where x: "progress s x s1" "list_all audio_effect x"
    using progress_sendLoop [OF s1] by auto
  show ?thesis
  proof (cases "r \<noteq> n")
    case True
    then have "progress s1 [Warning r n] s'" using s' progress_emit by simp
    then show ?thesis using progress_trans [OF x(1)] x(2)
      by (intro exI [of _ "x @ [Warning r n]"]) simp
  next
    case False
    then show ?thesis using x s' by auto
  qed
qed

lemma drawn_displayStreaming: "\<exists>x. drawn s x (displayStreaming now s)"
proof -
  have "drawn s (added s (displayStreaming now s)) (displayStreaming now s)"
    by (simp add: drawn_def displayStreaming_def Let_def emit_def added_def fullRedraws_def)
  then show ?thesis ..
qed

lemma drawn_displaySearching: "\<exists>x. drawn s x (displaySearching now ms s)"
proof -
  have "drawn s (added s (displaySearching now ms s)) (displaySearching now ms s)"
    by (simp add: drawn_def displaySearching_def Let_def emit_def added_def fullRedraws_def)
  then show ?thesis ..
qed

lemma drawn_displayReady: "\<exists>x. drawn s x (displayReady s)"
proof -
  have "drawn s (added s (displayReady s)) (displayReady s)"
    by (simp add: drawn_def displayReady_def Let_def emit_def added_def fullRedraws_def)
  then show ?thesis ..
qed

lemma drawn_trans: "drawn s x s1 \<Longrightarrow> drawn s1 y s2 \<Longrightarrow> drawn s (x @ y) s2"
  by (simp add: drawn_def)

lemma updateDisplay_drawn:
  "\<exists>x. trace (updateDisplay a b c s) = trace s @ x \<and> list_all display_effect x
     \<and> fullRedraws x = (if currentState s \<noteq> lastDisplayState s \<or> needsFullRedraw s then 1 else 0)
     \<and> btConnected (updateDisplay a b c s) = btConnected s
     \<and> btDiscoverable (updateDisplay a b c s) = btDiscoverable s
     \<and> discoverableStartTime (updateDisplay a b c s) = discoverableStartTime s
     \<and> lastTouchState (updateDisplay a b c s) = lastTouchState s
     \<and> lastDisplayState (updateDisplay a b c s) = currentState s
     \<and> \<not> needsFullRedraw (updateDisplay a b c s)
     \<and> audioBuffer (updateDisplay a b c s) = audioBuffer s
     \<and> lastLevel (updateDisplay a b c s) = lastLevel s"
proof -
  define s1 where "s1 = (if currentState s \<noteq> lastDisplayState s \<or> needsFullRedraw s
                then (emit FillScreen s)\<lparr>lastDisplayState := currentState s, needsFullRedraw := False,
                       lastAudioLevel := - 1, lastRemainingTime := 999,
                       lastStatusBarUpdate := a\<rparr>
                else s)"
  define s2 where "s2 = (if b - lastStatusBarUpdate s1 > 5000
                then (emit StatusBar s1)\<lparr>lastStatusBarUpdate := b\<rparr> else s1)"
  define s3 where "s3 = (if btConnected s2 then displayStreaming b s2
         else if btDiscoverable s2 then displaySearching b c s2
         else displayReady s2)"
  have u: "updateDisplay a b c s = s3"
    by (simp add: updateDisplay_def Let_def s1_def s2_def s3_def)
  define x1 where "x1 = (if currentState s \<noteq> lastDisplayState s \<or> needsFullRedraw s
      then [FillScreen] else [])"
  have 1: "trace s1 = trace s @ x1" "list_all display_effect x1"
    "fullRedraws x1 = (if currentState s \<noteq> lastDisplayState s \<or> needsFullRedraw s then 1 else 0)"
    "btConnected s1 = btConnected s" "btDiscoverable s1 = btDiscoverable s"
    "discoverableStartTime s1 = discoverableStartTime s" "lastTouchState s1 = lastTouchState s"
    "lastDisplayState s1 = currentState s" "\<not> needsFullRedraw s1"
    "audioBuffer s1 = audioBuffer s" "lastLevel s1 = lastLevel s"
    by (auto simp add: s1_def x1_def emit_def fullRedraws_def)
  have 2: "\<exists>x. drawn s1 x s2"
  proof -
    have "drawn s1 (added s1 s2) s2"
      by (simp add: drawn_def s2_def emit_def added_def fullRedraws_def)
    then show ?thesis ..
  qed
  have 3: "\<exists>x. drawn s2 x s3"
    unfolding s3_def using drawn_displayStreaming drawn_displaySearching drawn_displayReady
    by simp
  obtain x2 where x2: "drawn s1 x2 s2" using 2 by blast
  obtain x3 where x3: "drawn s2 x3 s3" using 3 by blast
  have d: "drawn s1 (x2 @ x3) s3" by (rule drawn_trans [OF x2 x3])
  show ?thesis
    unfolding u using 1 d
    by (intro exI [of _ "x1 @ x2 @ x3"]) (simp add: drawn_def)
qed

lemma progress_streamAudio:
  assumes "streamAudio env s = Some (Inr s')"
  shows "\<exists>x. progress s x s' \<and> list_all audio_effect x
           \<and> (if btConnected s then \<exists>rest. x = I2SRead # rest else x = [Delay 100])"
proof (cases "btConnected s")
  case False
  then have "s' = emit (Delay 100) s" using assms by (simp add: streamAudio_def)
  then show ?thesis using False progress_emit [of s "Delay 100"]
    by (intro exI [of _ "[Delay 100]"]) simp
next
  case True
  let ?n = "i2s_bytesRead env"
  let ?s1 = "(emit I2SRead s)\<lparr>audioBuffer := take ?n (i2s_data env) @ drop ?n (audioBuffer s)\<rparr>"
  let ?s2 = "fold btCallback (i2s_events env) ?s1"
  have p1: "progress s [I2SRead] ?s1"
    by (simp add: progress_def emit_def currentState_def)
  obtain x where x: "progress ?s1 x ?s2" "list_all audio_effect x"
    using progress_events by blast
  have p2: "progress s ([I2SRead] @ x) ?s2" by (rule progress_trans [OF p1 x(1)])
  show ?thesis
  proof (cases "i2s_ok env \<and> ?n > 0")
    case False
    then have "s' = ?s2" using assms True by (auto simp add: streamAudio_def Let_def)
    then show ?thesis using p2 x(2) True by (intro exI [of _ "[I2SRead] @ x"]) simp
  next
    case ok: True
    define lv where "lv = (if ms_level env - lastAudioUpdate ?s2 > 50
                     then (case calculateAudioLevel (audioBuffer ?s2) ?n ?s2 of
                             Inl e \<Rightarrow> Inl e
                           | Inr s3 \<Rightarrow> Inr (s3\<lparr>lastAudioUpdate := ms_level_done env\<rparr>))
                     else Inr ?s2)"
    have run: "(case lv of Inl e \<Rightarrow> Some (Inl e)
               | Inr s3 \<Rightarrow> (case transmit (bt_write env) ?n s3 of None \<Rightarrow> None
                            | Some (totalWritten, s4) \<Rightarrow> Some (Inr s4))) = Some (Inr s')"
      using assms True ok unfolding streamAudio_def Let_def lv_def by simp
    then obtain s3 where lv: "lv = Inr s3" by (cases lv) auto
    have s3: "progress ?s2 [] s3"
    proof (cases "ms_level env - lastAudioUpdate ?s2 > 50")
      case False
      then show ?thesis using lv progress_refl by (simp add: lv_def)
    next
      case due: True
      then obtain s3' where c: "calculateAudioLevel (audioBuffer ?s2) ?n ?s2 = Inr s3'"
        and e: "s3 = s3'\<lparr>lastAudioUpdate := ms_level_done env\<rparr>"
        using lv by (auto simp add: lv_def split: sum.splits)
      have "progress ?s2 [] s3'" by (rule progress_calculateAudioLevel [OF c])
      then show ?thesis by (simp add: e progress_def currentState_def)
    qed
    obtain r where r: "transmit (bt_write env) ?n s3 = Some (r, s')"
      using run lv by (auto split: option.splits)
    obtain y where y: "progress s3 y s'" "list_all audio_effect y"
      using progress_transmit [OF r] by blast
    have "progress s (([I2SRead] @ x) @ [] @ y) s'"
      by (rule progress_trans [OF p2 progress_trans [OF s3 y(1)]])
    then show ?thesis using x(2) y(2) True
      by (intro exI [of _ "([I2SRead] @ x) @ [] @ y"]) simp
  qed
qed


lemma loop_phases:
  assumes "loop env s = Some (Inr s')"
  shows "\<exists>a. progress (updateDisplay (ms_redraw env) (ms_now env) (ms_remaining env) s)
              (eventPrints (ev_display env) @ inputEffects env (seenByTouch env s)
               @ (if timeoutDue env (seenByTouch env s)
                  then [SerialPrint ''Connection mode timeout''] else []) @ a) s'
           \<and> list_all audio_effect a
           \<and> (if streamsAfterTouch env (seenByTouch env s)
               then \<exists>rest. a = I2SRead # rest else a = [Delay 100])"
proof -
  let ?u = "updateDisplay (ms_redraw env) (ms_now env) (ms_remaining env) s"
  let ?x = "seenByTouch env s"
  let ?h = "handleTouch env ?x"
  let ?t = "checkTimeout env ?h"
  have e: "progress ?u (eventPrints (ev_display env)) ?x"
    unfolding seenByTouch_def by (rule progress_events_exact)
  have i: "progress ?x (inputEffects env ?x) ?h" by (rule progress_handleTouch)
  have t: "progress ?h (if timeoutDue env ?x then [SerialPrint ''Connection mode timeout''] else []) ?t"
    by (rule progress_checkTimeout)
  have c: "btConnected ?t = streamsAfterTouch env ?x"
    by (simp add: checkTimeout_handleTouch handleTouch_fields emit_def)
  have "streamAudio env ?t = Some (Inr s')"
    using assms by (simp add: loop_def seenByTouch_def)
  then obtain a where a: "progress ?t a s'" "list_all audio_effect a"
      "if btConnected ?t then \<exists>rest. a = I2SRead # rest else a = [Delay 100]"
    using progress_streamAudio by blast
  have "progress ?u (eventPrints (ev_display env) @ inputEffects env ?x
               @ (if timeoutDue env ?x then [SerialPrint ''Connection mode timeout''] else []) @ a) s'"
    by (rule progress_trans [OF e progress_trans [OF i progress_trans [OF t a(1)]]])
  then show ?thesis using a(2,3) unfolding c by blast
qed

lemma seenByTouch_fields:
  "btConnected (seenByTouch env s) = linkAfter (ev_display env) (btConnected s)"
  "btDiscoverable (seenByTouch env s) = btDiscoverable s"
  "discoverableStartTime (seenByTouch env s) = discoverableStartTime s"
  "lastTouchState (seenByTouch env s) = lastTouchState s"
  "lastDisplayState (seenByTouch env s) = currentState s"
  "needsFullRedraw (seenByTouch env s) = (eventPrints (ev_display env) \<noteq> [])"
  "audioBuffer (seenByTouch env s) = audioBuffer s"
  "lastLevel (seenByTouch env s) = lastLevel s"
  unfolding seenByTouch_def
  using updateDisplay_drawn [of "ms_redraw env" "ms_now env" "ms_remaining env" s]
  by (auto simp add: events_simps)

text \<open>Without a link after the touch handling the pass ends in the delay of l. 577.\<close>

lemma streamAudio_idle:
  "\<not> btConnected s \<Longrightarrow> streamAudio env s = Some (Inr (emit (Delay 100) s))"
  by (simp add: streamAudio_def)

lemma loop_idle:
  assumes "\<not> streamsAfterTouch env (seenByTouch env s)"
  shows "loop env s = Some (Inr (emit (Delay 100)
           (checkTimeout env (handleTouch env (seenByTouch env s)))))"
proof -
  have "\<not> btConnected (checkTimeout env (handleTouch env (seenByTouch env s)))"
    using assms by (simp add: checkTimeout_handleTouch handleTouch_fields emit_def)
  then show ?thesis
    unfolding loop_def seenByTouch_def [symmetric] by (rule streamAudio_idle)
qed

lemmas model_defs = loop_def updateDisplay_def displayStreaming_def displaySearching_def
  displayReady_def handleTouch_def pressConnect_def pressStop_def checkTimeout_def streamAudio_def
  btCallback_def emit_def currentState_def connectionState_def remainingSeconds_def
  DISCOVERABLE_DURATION_def touchAt_def quiet_def initial_def Let_def

lemma connectionState_Discoverable:
  "connectionState s = Discoverable \<longleftrightarrow> btDiscoverable s \<and> \<not> btConnected s"
  by (simp add: connectionState_def currentState_def)

lemma connectionState_Idle:
  "connectionState s = Idle \<longleftrightarrow> \<not> btDiscoverable s \<and> \<not> btConnected s"
  by (simp add: connectionState_def currentState_def)

lemma no_audio_in_display:
  "list_all display_effect x \<Longrightarrow> I2SRead \<notin> set x \<and> BtWrite off n \<notin> set x"
  by (auto simp: list_all_iff)

lemma no_audio_in_input:
  "list_all input_effect x \<Longrightarrow> I2SRead \<notin> set x \<and> BtWrite off n \<notin> set x"
  by (auto simp: list_all_iff)

lemma timeoutDue_idle: "timeoutDue env x \<Longrightarrow> \<not> streamsAfterTouch env x"
  by (auto simp add: timeoutDue_def streamsAfterTouch_def split: if_splits)

subsection \<open>Claims about the connection state and the order of a pass\<close>

text \<open>
  C1: a peer-detach event delivered while Streaming should leave the state Idle. The callback
  clears \<^verbatim>\<open>btConnected\<close> only. After a CONNECT press and an attach, \<^verbatim>\<open>btDiscoverable\<close>
  is still set, so the detach leaves the state Discoverable, and a pass one second after the
  press keeps it there; the STOP handler (l. 521-522) clears both flags.
\<close>

theorem detach_after_connect_press_is_discoverable:
  "stateAfter [Tick (touchAt 100 200 1000), Event ESP_SPP_SRV_OPEN_EVT] = Some (Inr Streaming)
   \<and> stateAfter [Tick (touchAt 100 200 1000), Event ESP_SPP_SRV_OPEN_EVT, Event ESP_SPP_CLOSE_EVT]
       = Some (Inr Discoverable)
   \<and> stateAfter [Tick (touchAt 100 200 1000), Event ESP_SPP_SRV_OPEN_EVT, Event ESP_SPP_CLOSE_EVT,
        Tick (quiet 2000)] = Some (Inr Discoverable)"
  by (simp add: stateAfter_def model_defs)




subsection \<open>The discoverability window\<close>

text \<open>
  A pass that starts Discoverable, with no peer attaching while the screen is drawn: the touch
  handling changes nothing but the touch flag, and only the timeout can end the window.
\<close>

lemma discoverable_seen:
  assumes "btDiscoverable s" "\<not> btConnected s" "\<not> linkAfter (ev_display env) False"
  shows "\<not> connectPressed env (seenByTouch env s)" "\<not> stopPressed env (seenByTouch env s)"
    "\<not> streamsAfterTouch env (seenByTouch env s)"
    "timeoutDue env (seenByTouch env s)
       = (ms_timeout env - discoverableStartTime s > DISCOVERABLE_DURATION)"
  using assms
  by (simp_all add: connectPressed_def stopPressed_def streamsAfterTouch_def timeoutDue_def
      seenByTouch_fields)

lemma loop_discoverable:
  assumes "btDiscoverable s" "\<not> btConnected s" "\<not> linkAfter (ev_display env) False"
  shows "\<exists>s'. loop env s = Some (Inr s') \<and> \<not> btConnected s'
           \<and> btDiscoverable s' = (\<not> ms_timeout env - discoverableStartTime s > DISCOVERABLE_DURATION)
           \<and> discoverableStartTime s' = discoverableStartTime s
           \<and> (ms_timeout env - discoverableStartTime s > DISCOVERABLE_DURATION
                \<longrightarrow> needsFullRedraw s')
           \<and> lastRemainingTime s'
               = lastRemainingTime (updateDisplay (ms_redraw env) (ms_now env) (ms_remaining env) s)
           \<and> (\<exists>x. trace s' = trace (updateDisplay (ms_redraw env) (ms_now env) (ms_remaining env) s) @ x)"
proof -
  note d = discoverable_seen [OF assms]
  let ?x = "seenByTouch env s"
  let ?r = "emit (Delay 100) (checkTimeout env (handleTouch env ?x))"
  have run: "loop env s = Some (Inr ?r)" by (rule loop_idle [OF d(3)])
  have h: "handleTouch env ?x = ?x\<lparr>lastTouchState := touching env\<rparr>"
    using d(1,2) by (simp add: handleTouch_stages)
  have f: "\<not> btConnected ?r"
    "btDiscoverable ?r = (\<not> ms_timeout env - discoverableStartTime s > DISCOVERABLE_DURATION)"
    "discoverableStartTime ?r = discoverableStartTime s"
    "ms_timeout env - discoverableStartTime s > DISCOVERABLE_DURATION \<longrightarrow> needsFullRedraw ?r"
    using d assms(1)
    by (simp_all add: checkTimeout_handleTouch handleTouch_fields emit_def seenByTouch_fields)
  have ct: "lastRemainingTime (checkTimeout env y) = lastRemainingTime y" for y
    by (simp add: checkTimeout_def emit_def)
  have ev: "lastRemainingTime (fold btCallback evs y) = lastRemainingTime y" for evs y
    by (induction evs arbitrary: y) (simp_all add: btCallback_def emit_def)
  have l: "lastRemainingTime ?r
      = lastRemainingTime (updateDisplay (ms_redraw env) (ms_now env) (ms_remaining env) s)"
  proof -
    have "lastRemainingTime ?r = lastRemainingTime (handleTouch env ?x)"
      by (simp add: emit_def ct)
    also have "\<dots> = lastRemainingTime ?x" by (simp add: h)
    also have "\<dots> = lastRemainingTime
        (updateDisplay (ms_redraw env) (ms_now env) (ms_remaining env) s)"
      by (simp add: seenByTouch_def ev)
    finally show ?thesis .
  qed
  have y: "trace (checkTimeout env (handleTouch env ?x)) = trace (handleTouch env ?x)
      @ (if timeoutDue env ?x then [SerialPrint ''Connection mode timeout''] else [])"
    using progress_checkTimeout [of env ?x] unfolding progress_def by blast
  have t: "\<exists>x. trace ?r = trace (updateDisplay (ms_redraw env) (ms_now env) (ms_remaining env) s) @ x"
  proof -
    have t1: "trace ?r = trace (handleTouch env ?x)
        @ (if timeoutDue env ?x then [SerialPrint ''Connection mode timeout''] else [])
        @ [Delay 100]"
      by (simp add: emit_def y)
    have t2: "trace (handleTouch env ?x) = trace ?x @ inputEffects env ?x"
      by (rule handleTouch_fields)
    have t3: "trace ?x = trace (updateDisplay (ms_redraw env) (ms_now env) (ms_remaining env) s)
        @ eventPrints (ev_display env)"
      by (simp add: seenByTouch_def events_simps)
    show ?thesis unfolding t1 t2 t3 by simp
  qed
  show ?thesis using run f l t by blast
qed

lemma discoverable_run:
  "btDiscoverable s \<Longrightarrow> \<not> btConnected s \<Longrightarrow> envs \<noteq> [] \<Longrightarrow>
   \<forall>env \<in> set envs. \<not> linkAfter (ev_display env) False \<Longrightarrow>
   60000 < unat (ms_timeout (last envs) - discoverableStartTime s) \<Longrightarrow>
   \<exists>k s'. 0 < k \<and> k \<le> length envs \<and> exec (map Tick (take k envs)) s = Some (Inr s')
      \<and> connectionState s' = Idle"
proof (induction envs arbitrary: s)
  case Nil
  then show ?case by simp
next
  case (Cons env envs)
  have q: "\<not> linkAfter (ev_display env) False" using Cons.prems(4) by simp
  obtain s1 where s1: "loop env s = Some (Inr s1)" "\<not> btConnected s1"
      "btDiscoverable s1 = (\<not> ms_timeout env - discoverableStartTime s > DISCOVERABLE_DURATION)"
      "discoverableStartTime s1 = discoverableStartTime s"
    using loop_discoverable [OF Cons.prems(1,2) q] by blast
  show ?case
  proof (cases "btDiscoverable s1")
    case False
    then have "connectionState s1 = Idle" using s1(2) by (simp add: connectionState_Idle)
    then show ?thesis using s1(1)
      by (intro exI [of _ 1] exI [of _ s1]) simp
  next
    case True
    have ne: "envs \<noteq> []"
    proof
      assume e: "envs = []"
      then have "60000 < unat (ms_timeout env - discoverableStartTime s)"
        using Cons.prems(5) by simp
      then have "ms_timeout env - discoverableStartTime s > DISCOVERABLE_DURATION"
        by (simp add: word_less_nat_alt DISCOVERABLE_DURATION_def)
      then show False using True s1(3) by simp
    qed
    have late: "60000 < unat (ms_timeout (last envs) - discoverableStartTime s1)"
      using Cons.prems(5) ne s1(4) by simp
    have qs: "\<forall>env \<in> set envs. \<not> linkAfter (ev_display env) False" using Cons.prems(4) by simp
    obtain k s' where k: "0 < k" "k \<le> length envs"
        "exec (map Tick (take k envs)) s1 = Some (Inr s')" "connectionState s' = Idle"
      using Cons.IH [OF True s1(2) ne qs late] by blast
    show ?thesis using k s1(1)
      by (intro exI [of _ "Suc k"] exI [of _ s']) simp
  qed
qed

text \<open>
  C8: when the state is Discoverable, no peer attaches, and the elapsed time since entry, as
  \<^verbatim>\<open>loop\<close> reads it at l. 533 (in 32-bit unsigned milliseconds), exceeds 60000, the pass
  returns with the state Idle and a full redraw pending. And the state does not stay
  Discoverable: in any run of passes from a Discoverable state with no peer attaching, once a
  pass reads an elapsed time above 60000 the state has been Idle at the end of that pass or of
  an earlier one. No peer attaching is said of the link events delivered while the screen is
  drawn, the only ones that reach a pass without a link and without a button press: they leave
  the link down.
\<close>

theorem discoverable_times_out:
  "(connectionState s = Discoverable \<and> \<not> linkAfter (ev_display env) False
      \<and> 60000 < unat (ms_timeout env - discoverableStartTime s)
      \<longrightarrow> (\<exists>s'. loop env s = Some (Inr s') \<and> connectionState s' = Idle \<and> needsFullRedraw s'))
   \<and> (connectionState s = Discoverable \<and> envs \<noteq> []
        \<and> (\<forall>env \<in> set envs. \<not> linkAfter (ev_display env) False)
        \<and> 60000 < unat (ms_timeout (last envs) - discoverableStartTime s)
      \<longrightarrow> (\<exists>k s'. 0 < k \<and> k \<le> length envs
             \<and> exec (map Tick (take k envs)) s = Some (Inr s') \<and> connectionState s' = Idle))"
proof (intro conjI impI)
  assume h: "connectionState s = Discoverable \<and> \<not> linkAfter (ev_display env) False
      \<and> 60000 < unat (ms_timeout env - discoverableStartTime s)"
  then have d: "btDiscoverable s" "\<not> btConnected s" "\<not> linkAfter (ev_display env) False"
    by (simp_all add: connectionState_Discoverable)
  have late: "ms_timeout env - discoverableStartTime s > DISCOVERABLE_DURATION"
    using h by (simp add: word_less_nat_alt DISCOVERABLE_DURATION_def)
  show "\<exists>s'. loop env s = Some (Inr s') \<and> connectionState s' = Idle \<and> needsFullRedraw s'"
    using loop_discoverable [OF d] late by (auto simp add: connectionState_Idle)
next
  assume h: "connectionState s = Discoverable \<and> envs \<noteq> []
        \<and> (\<forall>env \<in> set envs. \<not> linkAfter (ev_display env) False)
        \<and> 60000 < unat (ms_timeout (last envs) - discoverableStartTime s)"
  then have d: "btDiscoverable s" "\<not> btConnected s"
    by (simp_all add: connectionState_Discoverable)
  show "\<exists>k s'. 0 < k \<and> k \<le> length envs
             \<and> exec (map Tick (take k envs)) s = Some (Inr s') \<and> connectionState s' = Idle"
    using discoverable_run [OF d] h by blast
qed

theorem discoverable_times_out_witness:
  "(\<exists>s'. loop (quiet 62000) (initial\<lparr>btDiscoverable := True, discoverableStartTime := 1000\<rparr>)
           = Some (Inr s')
     \<and> connectionState s' = Idle \<and> needsFullRedraw s')
   \<and> (\<exists>k s'. 0 < k \<and> k \<le> length [quiet 30000, quiet 62000, quiet 62100]
        \<and> exec (map Tick (take k [quiet 30000, quiet 62000, quiet 62100]))
             (initial\<lparr>btDiscoverable := True, discoverableStartTime := 1000\<rparr>) = Some (Inr s')
        \<and> connectionState s' = Idle)"
proof
  let ?S = "initial\<lparr>btDiscoverable := True, discoverableStartTime := 1000\<rparr>"
  have "connectionState ?S = Discoverable \<and> \<not> linkAfter (ev_display (quiet 62000)) False
      \<and> 60000 < unat (ms_timeout (quiet 62000) - discoverableStartTime ?S)"
    by (simp add: connectionState_Discoverable initial_def quiet_def touchAt_def linkAfter_def)
  then show "\<exists>s'. loop (quiet 62000) ?S = Some (Inr s')
     \<and> connectionState s' = Idle \<and> needsFullRedraw s'"
    using discoverable_times_out [where s = ?S and env = "quiet 62000"] by blast
next
  let ?S = "initial\<lparr>btDiscoverable := True, discoverableStartTime := 1000\<rparr>"
  let ?envs = "[quiet 30000, quiet 62000, quiet 62100]"
  have "connectionState ?S = Discoverable \<and> ?envs \<noteq> []
      \<and> (\<forall>env \<in> set ?envs. \<not> linkAfter (ev_display env) False)
      \<and> 60000 < unat (ms_timeout (last ?envs) - discoverableStartTime ?S)"
    by (simp add: connectionState_Discoverable initial_def quiet_def touchAt_def linkAfter_def)
  then show "\<exists>k s'. 0 < k \<and> k \<le> length ?envs
        \<and> exec (map Tick (take k ?envs)) ?S = Some (Inr s') \<and> connectionState s' = Idle"
    using discoverable_times_out [where s = ?S and envs = ?envs] by blast
qed

lemma remainingSeconds_wraps:
  assumes "60000 < unat (ms - start)"
  shows "unat (remainingSeconds ms start) = (2 ^ 32 + 60000 - unat (ms - start)) div 1000"
proof -
  have "unat ((60000 :: u32) - (ms - start)) = 60000 + 2 ^ 32 - unat (ms - start)"
    using assms by (simp add: unat_sub_if_size word_size)
  then show ?thesis
    by (simp add: remainingSeconds_def DISCOVERABLE_DURATION_def unat_div)
qed

lemma wrapped_mod:
  assumes "60000 < e" "e < (2 :: nat) ^ 32"
  shows "((60000 - int e) mod 2 ^ 32) div 1000 = int ((2 ^ 32 + 60000 - e) div 1000)"
proof -
  have "(60000 - int e + 4294967296) mod 4294967296 = (60000 - int e) mod 4294967296"
    by (rule mod_add_self2)
  moreover have "(60000 - int e + 4294967296) mod 4294967296 = 60000 - int e + 4294967296"
    using assms by (intro mod_pos_pos_trivial) simp_all
  ultimately have m: "(60000 - int e) mod 4294967296 = 4295027296 - int e" by simp
  have "int ((4295027296 - e) div 1000) = (4295027296 - int e) div 1000"
    using assms by (simp add: zdiv_int of_nat_diff)
  then show ?thesis using m by simp
qed

lemma displaySearching_countdown:
  assumes "now - lastUpdate s > 50"
  shows "lastRemainingTime (displaySearching now ms s) = remainingSeconds ms (discoverableStartTime s)"
    and "remainingSeconds ms (discoverableStartTime s) \<noteq> lastRemainingTime s \<Longrightarrow>
         Countdown (remainingSeconds ms (discoverableStartTime s))
           \<in> set (added s (displaySearching now ms s))"
  using assms by (simp_all add: displaySearching_def Let_def emit_def added_def)

lemma updateDisplay_countdown:
  fixes c :: u32
  assumes "btDiscoverable s" "\<not> btConnected s" "b - lastUpdate s > 50"
  shows "lastRemainingTime (updateDisplay a b c s) = remainingSeconds c (discoverableStartTime s)"
    and "remainingSeconds c (discoverableStartTime s)
           \<noteq> (if currentState s \<noteq> lastDisplayState s \<or> needsFullRedraw s then 999
               else lastRemainingTime s) \<Longrightarrow>
         Countdown (remainingSeconds c (discoverableStartTime s))
           \<in> set (added s (updateDisplay a b c s))"
proof -
  define r where "r = remainingSeconds c (discoverableStartTime s)"
  define s1 where "s1 = (if currentState s \<noteq> lastDisplayState s \<or> needsFullRedraw s
                then (emit FillScreen s)\<lparr>lastDisplayState := currentState s, needsFullRedraw := False,
                       lastAudioLevel := - 1, lastRemainingTime := 999,
                       lastStatusBarUpdate := a\<rparr>
                else s)"
  define s2 where "s2 = (if b - lastStatusBarUpdate s1 > 5000
                then (emit StatusBar s1)\<lparr>lastStatusBarUpdate := b\<rparr> else s1)"
  have f1: "btDiscoverable s1" "\<not> btConnected s1" "lastUpdate s1 = lastUpdate s"
    "discoverableStartTime s1 = discoverableStartTime s"
    "lastRemainingTime s1 = (if currentState s \<noteq> lastDisplayState s \<or> needsFullRedraw s then 999
               else lastRemainingTime s)"
    "length (trace s) \<le> length (trace s1)" "take (length (trace s)) (trace s1) = trace s"
    using assms(1,2) by (simp_all add: s1_def emit_def)
  have f2: "btDiscoverable s2" "\<not> btConnected s2" "lastUpdate s2 = lastUpdate s"
    "discoverableStartTime s2 = discoverableStartTime s"
    "lastRemainingTime s2 = lastRemainingTime s1"
    "length (trace s) \<le> length (trace s2)" "take (length (trace s)) (trace s2) = trace s"
    using f1 by (simp_all add: s2_def emit_def)
  have "updateDisplay a b c s = (if btConnected s2 then displayStreaming b s2
         else if btDiscoverable s2 then displaySearching b c s2
         else displayReady s2)"
    by (simp add: updateDisplay_def Let_def s1_def s2_def)
  then have u: "updateDisplay a b c s = displaySearching b c s2"
    using f2(1,2) by simp
  have due: "b - lastUpdate s2 > 50" using assms(3) f2(3) by simp
  show "lastRemainingTime (updateDisplay a b c s) = remainingSeconds c (discoverableStartTime s)"
    unfolding u using displaySearching_countdown(1) [OF due] f2(4) by simp
  assume "remainingSeconds c (discoverableStartTime s)
           \<noteq> (if currentState s \<noteq> lastDisplayState s \<or> needsFullRedraw s then 999
               else lastRemainingTime s)"
  then have "remainingSeconds c (discoverableStartTime s2) \<noteq> lastRemainingTime s2"
    using f1(5) f2(4,5) by simp
  then have "Countdown (remainingSeconds c (discoverableStartTime s2))
           \<in> set (added s2 (displaySearching b c s2))"
    by (rule displaySearching_countdown(2) [OF due])
  then have "Countdown r \<in> set (drop (length (trace s2)) (trace (displaySearching b c s2)))"
    by (simp add: added_def r_def f2(4))
  then have "Countdown r \<in> set (drop (length (trace s)) (trace (displaySearching b c s2)))"
    using set_drop_subset_set_drop [OF f2(6), of "trace (displaySearching b c s2)"] by auto
  then show "Countdown (remainingSeconds c (discoverableStartTime s))
           \<in> set (added s (updateDisplay a b c s))"
    by (simp add: added_def u r_def)
qed

text \<open>
  C10: in the pass in which the window expires, the display update runs before the timeout
  check. With the animation due and more than 60000 ms elapsed, the countdown computed is
  \<open>((60000 - elapsed) mod 2^32) / 1000\<close>: at least 60, above two million while the elapsed
  time is below \<open>2^31\<close>, and it is drawn unless it equals the value last drawn; the same
  pass then ends Idle, no peer attaching while the screen is drawn.
\<close>

theorem countdown_wraps_when_expired:
  assumes "connectionState s = Discoverable"
    "ms_now env - lastUpdate s > 50"
    "60000 < unat (ms_remaining env - discoverableStartTime s)"
    "60000 < unat (ms_timeout env - discoverableStartTime s)"
    "\<not> linkAfter (ev_display env) False"
  defines "elapsed \<equiv> unat (ms_remaining env - discoverableStartTime s)"
  shows "\<exists>s'. loop env s = Some (Inr s') \<and> connectionState s' = Idle
      \<and> lastRemainingTime s' = remainingSeconds (ms_remaining env) (discoverableStartTime s)
      \<and> int (unat (lastRemainingTime s')) = ((60000 - int elapsed) mod 2 ^ 32) div 1000
      \<and> 60 \<le> unat (lastRemainingTime s')
      \<and> (elapsed \<le> 2 ^ 31 \<longrightarrow> 2147543 \<le> unat (lastRemainingTime s'))
      \<and> (lastRemainingTime s' \<noteq> (if currentState s \<noteq> lastDisplayState s \<or> needsFullRedraw s
                                    then 999 else lastRemainingTime s) \<longrightarrow>
           Countdown (lastRemainingTime s') \<in> set (added s s'))"
proof -
  define u where "u = updateDisplay (ms_redraw env) (ms_now env) (ms_remaining env) s"
  define r where "r = remainingSeconds (ms_remaining env) (discoverableStartTime s)"
  have d: "btDiscoverable s" "\<not> btConnected s"
    using assms(1) by (simp_all add: connectionState_Discoverable)
  have late: "ms_timeout env - discoverableStartTime s > DISCOVERABLE_DURATION"
    using assms(4) by (simp add: word_less_nat_alt DISCOVERABLE_DURATION_def)
  obtain s' x where run: "loop env s = Some (Inr s')" and f: "\<not> btConnected s'"
      "btDiscoverable s' = (\<not> ms_timeout env - discoverableStartTime s > DISCOVERABLE_DURATION)"
      and lu: "lastRemainingTime s' = lastRemainingTime u" and tr: "trace s' = trace u @ x"
    using loop_discoverable [OF d assms(5)] unfolding u_def by blast
  have idle: "connectionState s' = Idle"
    using f late by (simp add: connectionState_Idle)
  have lr: "lastRemainingTime s' = r"
    using updateDisplay_countdown(1) [OF d assms(2)]
    by (simp add: lu u_def r_def)
  have lt: "elapsed < 2 ^ 32"
    unfolding elapsed_def using unsigned_less [of "ms_remaining env - discoverableStartTime s"] by simp
  have val: "unat r = (2 ^ 32 + 60000 - elapsed) div 1000"
    unfolding r_def elapsed_def by (rule remainingSeconds_wraps [OF assms(3)])
  have v1: "int (unat r) = ((60000 - int elapsed) mod 2 ^ 32) div 1000"
    unfolding val using wrapped_mod [of elapsed] assms(3) lt
    by (simp add: elapsed_def)
  have v2: "60 \<le> unat r" unfolding val using lt by simp
  have v3: "elapsed \<le> 2 ^ 31 \<longrightarrow> 2147543 \<le> unat r"
  proof
    assume "elapsed \<le> 2 ^ 31"
    then have "2147543 * 1000 \<le> (2 :: nat) ^ 32 + 60000 - elapsed" by simp
    then have "2147543 \<le> ((2 :: nat) ^ 32 + 60000 - elapsed) div 1000"
      by (simp add: less_eq_div_iff_mult_less_eq)
    then show "2147543 \<le> unat r" by (simp only: val)
  qed
  have shown: "Countdown r \<in> set (added s s')"
    if "r \<noteq> (if currentState s \<noteq> lastDisplayState s \<or> needsFullRedraw s
               then 999 else lastRemainingTime s)"
  proof -
    have "Countdown r \<in> set (added s u)"
      unfolding u_def r_def using that updateDisplay_countdown(2) [OF d assms(2)]
      by (simp add: r_def)
    then show ?thesis by (auto simp add: added_def tr)
  qed
  show ?thesis
    using run idle lr v1 v2 v3 shown unfolding r_def [symmetric] by auto
qed

theorem countdown_wraps_when_expired_witness:
  "\<exists>s'. loop (quiet 61100) (initial\<lparr>btDiscoverable := True, discoverableStartTime := 1000\<rparr>)
           = Some (Inr s')
      \<and> connectionState s' = Idle
      \<and> lastRemainingTime s' = 4294967
      \<and> Countdown 4294967 \<in> set (added (initial\<lparr>btDiscoverable := True, discoverableStartTime := 1000\<rparr>) s')"
proof -
  let ?S = "initial\<lparr>btDiscoverable := True, discoverableStartTime := 1000\<rparr>"
  have r: "remainingSeconds (ms_remaining (quiet 61100)) (discoverableStartTime ?S) = 4294967"
    by (simp add: remainingSeconds_def DISCOVERABLE_DURATION_def quiet_def touchAt_def initial_def)
  have "connectionState ?S = Discoverable" "ms_now (quiet 61100) - lastUpdate ?S > 50"
    "60000 < unat (ms_remaining (quiet 61100) - discoverableStartTime ?S)"
    "60000 < unat (ms_timeout (quiet 61100) - discoverableStartTime ?S)"
    "\<not> linkAfter (ev_display (quiet 61100)) False"
    by (simp_all add: connectionState_Discoverable initial_def quiet_def touchAt_def linkAfter_def)
  from countdown_wraps_when_expired [OF this] obtain s' where
    s': "loop (quiet 61100) ?S = Some (Inr s')" "connectionState s' = Idle"
      "lastRemainingTime s' = remainingSeconds (ms_remaining (quiet 61100)) (discoverableStartTime ?S)"
      "lastRemainingTime s' \<noteq> (if currentState ?S \<noteq> lastDisplayState ?S \<or> needsFullRedraw ?S
                                    then 999 else lastRemainingTime ?S) \<longrightarrow>
           Countdown (lastRemainingTime s') \<in> set (added ?S s')"
    by blast
  have "lastRemainingTime s' = 4294967" using s'(3) r by simp
  moreover have "Countdown (lastRemainingTime s') \<in> set (added ?S s')"
    using s'(4) calculation by (simp add: initial_def)
  ultimately show ?thesis using s'(1,2) by auto
qed

subsection \<open>The transmit loop\<close>

lemma sendLoop_step:
  assumes "tw < n" "btConnected s"
  shows "\<exists>s1 x. trace s1 = trace s @ x \<and> noWarning x
           \<and> btConnected s1 = linkAfter (snd (wr k)) True
           \<and> sendLoop wr n k tw s = sendLoop wr n (k + 1) (tw + min (fst (wr k)) (n - tw)) s1"
proof -
  let ?s0 = "emit (BtWrite tw (n - tw)) s"
  let ?s1 = "fold btCallback (snd (wr k)) ?s0"
  let ?w = "min (fst (wr k)) (n - tw)"
  obtain x where x: "trace ?s1 = trace ?s0 @ x" "noWarning x" using events_trace by blast
  have c: "btConnected ?s1 = linkAfter (snd (wr k)) True"
    using assms(2) by (simp add: btConnected_events emit_def)
  show ?thesis
  proof (cases "0 < ?w")
    case True
    then have "sendLoop wr n k tw s = sendLoop wr n (k + 1) (tw + ?w) ?s1"
      using assms by (subst sendLoop.simps) (simp add: Let_def)
    then show ?thesis using x c
      by (intro exI [of _ ?s1] exI [of _ "[BtWrite tw (n - tw)] @ x"]) (simp add: emit_def)
  next
    case False
    then have "sendLoop wr n k tw s = sendLoop wr n (k + 1) (tw + ?w) (emit (Delay 1) ?s1)"
      using assms by (subst sendLoop.simps) (simp add: Let_def)
    then show ?thesis using x c
      by (intro exI [of _ "emit (Delay 1) ?s1"] exI [of _ "[BtWrite tw (n - tw)] @ x @ [Delay 1]"])
         (simp add: emit_def)
  qed
qed

lemma sendLoop_exit:
  assumes "\<not> (tw < n \<and> btConnected s)"
  shows "sendLoop wr n k tw s = Some (tw, s)"
  by (subst sendLoop.simps) (simp only: assms if_False)

lemma sendLoop_skip_zeros:
  assumes up: "\<forall>k. linkAfter (snd (wr k)) True"
  shows "tw < n \<Longrightarrow> btConnected s \<Longrightarrow> \<forall>i<m. fst (wr (k + i)) = 0 \<Longrightarrow>
         \<exists>s1 x. sendLoop wr n k tw s = sendLoop wr n (k + m) tw s1 \<and> btConnected s1
            \<and> trace s1 = trace s @ x \<and> noWarning x"
proof (induction m arbitrary: k s)
  case 0
  show ?case using "0.prems"(2) by (intro exI [of _ s] exI [of _ "[]"]) simp
next
  case (Suc m)
  have z: "fst (wr k) = 0" using Suc.prems(3) by force
  obtain s1 x where s1: "trace s1 = trace s @ x" "noWarning x"
      "btConnected s1 = linkAfter (snd (wr k)) True"
      "sendLoop wr n k tw s = sendLoop wr n (k + 1) (tw + min (fst (wr k)) (n - tw)) s1"
    using sendLoop_step [OF Suc.prems(1,2)] by blast
  have c1: "btConnected s1" using s1(3) up by simp
  have rest: "\<forall>i<m. fst (wr (k + 1 + i)) = 0"
  proof (intro allI impI)
    fix i assume "i < m"
    then have "fst (wr (k + Suc i)) = 0" using Suc.prems(3) by (meson Suc_less_eq)
    then show "fst (wr (k + 1 + i)) = 0" by simp
  qed
  obtain s2 y where s2: "sendLoop wr n (k + 1) tw s1 = sendLoop wr n (k + 1 + m) tw s2"
      "btConnected s2" "trace s2 = trace s1 @ y" "noWarning y"
    using Suc.IH [OF Suc.prems(1) c1 rest] by blast
  show ?case using s1(1,2,4) s2 z
    by (intro exI [of _ s2] exI [of _ "x @ y"]) simp
qed

lemma sendLoop_delivers:
  assumes up: "\<forall>k. linkAfter (snd (wr k)) True"
    and live: "\<forall>k. \<exists>m. 0 < fst (wr (k + m))"
  shows "tw \<le> n \<Longrightarrow> btConnected s \<Longrightarrow>
         \<exists>s' x. sendLoop wr n k tw s = Some (n, s') \<and> trace s' = trace s @ x \<and> noWarning x"
proof (induction "n - tw" arbitrary: k tw s rule: less_induct)
  case less
  show ?case
  proof (cases "tw < n")
    case False
    then have "tw = n" using less.prems(1) by simp
    then have "sendLoop wr n k tw s = Some (n, s)" by (simp add: sendLoop_exit)
    then show ?thesis by (intro exI [of _ s] exI [of _ "[]"]) simp
  next
    case True
    have "\<exists>m. 0 < fst (wr (k + m))" using live by blast
    then obtain m where m: "0 < fst (wr (k + m))" "\<forall>i<m. \<not> 0 < fst (wr (k + i))"
      using exists_least_iff [of "\<lambda>m. 0 < fst (wr (k + m))"] by blast
    then have zeros: "\<forall>i<m. fst (wr (k + i)) = 0" by simp
    obtain s1 x where s1: "sendLoop wr n k tw s = sendLoop wr n (k + m) tw s1" "btConnected s1"
        "trace s1 = trace s @ x" "noWarning x"
      using sendLoop_skip_zeros [OF up True less.prems(2) zeros] by blast
    let ?w = "min (fst (wr (k + m))) (n - tw)"
    obtain s2 y where s2: "trace s2 = trace s1 @ y" "noWarning y"
        "btConnected s2 = linkAfter (snd (wr (k + m))) True"
        "sendLoop wr n (k + m) tw s1 = sendLoop wr n (k + m + 1) (tw + ?w) s2"
      using sendLoop_step [OF True s1(2)] by blast
    have c2: "btConnected s2" using s2(3) up by simp
    have w: "0 < ?w" using m(1) True by simp
    have "\<exists>s' z. sendLoop wr n (k + m + 1) (tw + ?w) s2 = Some (n, s')
        \<and> trace s' = trace s2 @ z \<and> noWarning z"
    proof (rule less.hyps)
      show "n - (tw + ?w) < n - tw" using w True by simp
      show "tw + ?w \<le> n" using True by simp
      show "btConnected s2" by (rule c2)
    qed
    then obtain s' z where s': "sendLoop wr n (k + m + 1) (tw + ?w) s2 = Some (n, s')"
        "trace s' = trace s2 @ z" "noWarning z"
      by blast
    show ?thesis using s1(1,3,4) s2(1,2,4) s'
      by (intro exI [of _ s'] exI [of _ "x @ y @ z"]) simp
  qed
qed

lemma sendLoop_partial:
  "btConnected s \<Longrightarrow> \<forall>i<j. linkAfter (snd (wr (k + i))) True \<Longrightarrow>
   \<not> linkAfter (snd (wr (k + j))) True \<Longrightarrow> tw + (\<Sum>i\<le>j. fst (wr (k + i))) < n \<Longrightarrow>
   \<exists>s'. sendLoop wr n k tw s = Some (tw + (\<Sum>i\<le>j. fst (wr (k + i))), s')"
proof (induction j arbitrary: k tw s)
  case 0
  have lt: "tw < n" using "0.prems"(4) by simp
  obtain s1 x where s1: "btConnected s1 = linkAfter (snd (wr k)) True"
      "sendLoop wr n k tw s = sendLoop wr n (k + 1) (tw + min (fst (wr k)) (n - tw)) s1"
    using sendLoop_step [OF lt "0.prems"(1)] by blast
  have w: "min (fst (wr k)) (n - tw) = fst (wr k)" using "0.prems"(4) by simp
  have "\<not> btConnected s1" using s1(1) "0.prems"(3) by simp
  then show ?case using s1(2) w by (simp add: sendLoop_exit)
next
  case (Suc j)
  have split: "(\<Sum>i\<le>Suc j. fst (wr (k + i))) = fst (wr k) + (\<Sum>i\<le>j. fst (wr (k + 1 + i)))"
    by (simp add: sum.atMost_Suc_shift del: sum.atMost_Suc)
  have lt: "tw < n" using Suc.prems(4) by simp
  obtain s1 x where s1: "btConnected s1 = linkAfter (snd (wr k)) True"
      "sendLoop wr n k tw s = sendLoop wr n (k + 1) (tw + min (fst (wr k)) (n - tw)) s1"
    using sendLoop_step [OF lt Suc.prems(1)] by blast
  have w: "min (fst (wr k)) (n - tw) = fst (wr k)" using Suc.prems(4) split by simp
  have c1: "btConnected s1" using s1(1) Suc.prems(2) by force
  have up: "\<forall>i<j. linkAfter (snd (wr (k + 1 + i))) True"
  proof (intro allI impI)
    fix i assume "i < j"
    then have "linkAfter (snd (wr (k + Suc i))) True" using Suc.prems(2) by (meson Suc_less_eq)
    then show "linkAfter (snd (wr (k + 1 + i))) True" by simp
  qed
  have down: "\<not> linkAfter (snd (wr (k + 1 + j))) True" using Suc.prems(3) by simp
  have bound: "tw + fst (wr k) + (\<Sum>i\<le>j. fst (wr (k + 1 + i))) < n"
    using Suc.prems(4) split by simp
  obtain s' where "sendLoop wr n (k + 1) (tw + fst (wr k)) s1
      = Some (tw + fst (wr k) + (\<Sum>i\<le>j. fst (wr (k + 1 + i))), s')"
    using Suc.IH [OF c1 up down bound] by blast
  then show ?case using s1(2) w split by (simp add: add.assoc)
qed

lemma transmit_trace:
  "transmit wr n s = Some (r, s') \<Longrightarrow> r \<noteq> n \<Longrightarrow> last (trace s') = Warning r n"
  by (auto simp: transmit_def emit_def split: option.splits)

text \<open>
  C3: for every block of \<open>n\<close> bytes, with the link up when the loop starts. If every link
  event leaves the link up and, from every call on, some later call accepts a positive number
  of bytes, the loop returns with exactly \<open>n\<close> bytes written and no warning. If the link goes
  down with the events of call \<open>j\<close>, the calls up to \<open>j\<close> having accepted less than
  \<open>n\<close> bytes in all, the loop returns that total, less than \<open>n\<close>, and the warning is
  the last effect; the result is a value, not an error.
\<close>

theorem transmit_delivers_or_reports_partial:
  "(btConnected s \<and> (\<forall>k. linkAfter (snd (wr k)) True) \<and> (\<forall>k. \<exists>m. 0 < fst (wr (k + m)))
      \<longrightarrow> (\<exists>s'. transmit wr n s = Some (n, s') \<and> noWarning (added s s')))
   \<and> (btConnected s \<and> (\<forall>k<j. linkAfter (snd (wr k)) True) \<and> \<not> linkAfter (snd (wr j)) True
        \<and> (\<Sum>k\<le>j. fst (wr k)) < n
      \<longrightarrow> (\<exists>s'. transmit wr n s = Some (\<Sum>k\<le>j. fst (wr k), s')
             \<and> last (trace s') = Warning (\<Sum>k\<le>j. fst (wr k)) n))"
proof (intro conjI impI)
  assume h: "btConnected s \<and> (\<forall>k. linkAfter (snd (wr k)) True) \<and> (\<forall>k. \<exists>m. 0 < fst (wr (k + m)))"
  then obtain s' x where s': "sendLoop wr n 0 0 s = Some (n, s')" "trace s' = trace s @ x"
      "noWarning x"
    using sendLoop_delivers [of wr 0 n s 0] by auto
  have "transmit wr n s = Some (n, s')" using s'(1) by (simp add: transmit_def)
  moreover have "added s s' = x" using s'(2) by (rule added_append)
  ultimately show "\<exists>s'. transmit wr n s = Some (n, s') \<and> noWarning (added s s')"
    using s'(3) by auto
next
  assume h: "btConnected s \<and> (\<forall>k<j. linkAfter (snd (wr k)) True) \<and> \<not> linkAfter (snd (wr j)) True
        \<and> (\<Sum>k\<le>j. fst (wr k)) < n"
  let ?t = "\<Sum>k\<le>j. fst (wr k)"
  obtain s1 where s1: "sendLoop wr n 0 0 s = Some (?t, s1)"
    using sendLoop_partial [of s j wr 0 0 n] h by auto
  have ne: "?t \<noteq> n" using h by simp
  have tx: "transmit wr n s = Some (?t, emit (Warning ?t n) s1)"
    using s1 ne by (simp add: transmit_def)
  show "\<exists>s'. transmit wr n s = Some (?t, s') \<and> last (trace s') = Warning ?t n"
    using tx transmit_trace [OF tx ne] by blast
qed

theorem transmit_delivers_or_reports_partial_witness:
  "(\<exists>s'. transmit (\<lambda>k. if k = 0 then (1, []) else if k = 1 then (500, []) else (2048, []))
            2048 (initial\<lparr>btConnected := True\<rparr>) = Some (2048, s')
          \<and> noWarning (added (initial\<lparr>btConnected := True\<rparr>) s'))
   \<and> (\<exists>s'. transmit (\<lambda>k. if k = 0 then (1, []) else if k = 1 then (0, [])
                          else (500, [ESP_SPP_CLOSE_EVT]))
            2048 (initial\<lparr>btConnected := True\<rparr>) = Some (501, s')
          \<and> last (trace s') = Warning 501 2048)"
proof
  let ?wr = "\<lambda>k :: nat. if k = 0 then (1 :: nat, [] :: spp_event list)
                       else if k = 1 then (500, []) else (2048, [])"
  let ?S = "initial\<lparr>btConnected := True\<rparr>"
  have "btConnected ?S \<and> (\<forall>k. linkAfter (snd (?wr k)) True) \<and> (\<forall>k. \<exists>m. 0 < fst (?wr (k + m)))"
    by (auto simp add: linkAfter_def intro: exI [of _ 0])
  then show "\<exists>s'. transmit ?wr 2048 ?S = Some (2048, s') \<and> noWarning (added ?S s')"
    using transmit_delivers_or_reports_partial [where s = ?S and wr = ?wr and n = 2048] by blast
next
  let ?wr = "\<lambda>k :: nat. if k = 0 then (1 :: nat, [] :: spp_event list)
                       else if k = 1 then (0, []) else (500, [ESP_SPP_CLOSE_EVT])"
  let ?S = "initial\<lparr>btConnected := True\<rparr>"
  have sum: "(\<Sum>k\<le>2. fst (?wr k)) = 501"
    by (simp add: eval_nat_numeral)
  have "btConnected ?S \<and> (\<forall>k<2. linkAfter (snd (?wr k)) True) \<and> \<not> linkAfter (snd (?wr 2)) True
        \<and> (\<Sum>k\<le>2. fst (?wr k)) < 2048"
    unfolding sum by (auto simp add: linkAfter_def)
  then have "\<exists>s'. transmit ?wr 2048 ?S = Some (\<Sum>k\<le>2. fst (?wr k), s')
             \<and> last (trace s') = Warning (\<Sum>k\<le>2. fst (?wr k)) 2048"
    using transmit_delivers_or_reports_partial [where s = ?S and wr = ?wr and n = 2048 and j = 2] by blast
  then show "\<exists>s'. transmit ?wr 2048 ?S = Some (501, s') \<and> last (trace s') = Warning 501 2048"
    unfolding sum .
qed

subsection \<open>Full redraws\<close>

lemma connectionState_eq:
  "connectionState s = connectionState s' \<longleftrightarrow> currentState s = currentState s'"
  by (simp add: connectionState_def currentState_def)

lemma loop_redraws:
  assumes "loop env s = Some (Inr s')"
  shows "\<exists>d y. trace s' = trace s @ d @ y
     \<and> fullRedraws d = (if currentState s \<noteq> lastDisplayState s \<or> needsFullRedraw s then 1 else 0)
     \<and> fullRedraws y = 0
     \<and> lastDisplayState s' = currentState s
     \<and> (currentState s' \<noteq> currentState s \<longrightarrow> needsFullRedraw s')
     \<and> (quietEffects y \<longrightarrow> currentState s' = currentState s \<and> \<not> needsFullRedraw s')"
proof -
  define u where "u = updateDisplay (ms_redraw env) (ms_now env) (ms_remaining env) s"
  let ?e = "eventPrints (ev_display env)"
  let ?i = "inputEffects env (seenByTouch env s)"
  let ?t = "if timeoutDue env (seenByTouch env s)
            then [SerialPrint ''Connection mode timeout''] else []"
  obtain d where d: "trace u = trace s @ d"
      "fullRedraws d = (if currentState s \<noteq> lastDisplayState s \<or> needsFullRedraw s then 1 else 0)"
      "btConnected u = btConnected s" "btDiscoverable u = btDiscoverable s"
      "lastDisplayState u = currentState s" "\<not> needsFullRedraw u"
    unfolding u_def using updateDisplay_drawn by blast
  obtain a where p: "progress u (?e @ ?i @ ?t @ a) s'" "list_all audio_effect a"
    using loop_phases [OF assms] unfolding u_def by blast
  have cu: "currentState u = currentState s" using d(3,4) by (simp add: currentState_def)
  have t0: "fullRedraws ?t = 0" by (simp add: fullRedraws_def)
  have 0: "fullRedraws (?e @ ?i @ ?t @ a) = 0"
    using fullRedraws_audio [OF eventPrints_effects(2), of "ev_display env"]
      fullRedraws_input [OF inputEffects_effects, of env "seenByTouch env s"]
      t0 fullRedraws_audio [OF p(2)]
    by (simp only: fullRedraws_simps)
  have 1: "trace s' = trace s @ d @ (?e @ ?i @ ?t @ a)" using p(1) d(1) by (simp add: progress_def)
  have 2: "lastDisplayState s' = currentState s" using p(1) d(5) by (simp add: progress_def)
  have 3: "currentState s' \<noteq> currentState s \<longrightarrow> needsFullRedraw s'"
    using p(1) cu by (simp add: progress_def)
  have 4: "quietEffects (?e @ ?i @ ?t @ a) \<longrightarrow> currentState s' = currentState s \<and> \<not> needsFullRedraw s'"
  proof
    assume "quietEffects (?e @ ?i @ ?t @ a)"
    then have k: "btConnected s' = btConnected u" "btDiscoverable s' = btDiscoverable u"
        "needsFullRedraw s' = needsFullRedraw u"
      using p(1) unfolding progress_def by blast+
    have "currentState s' = currentState u" using k(1,2) by (simp add: currentState_def)
    then show "currentState s' = currentState s \<and> \<not> needsFullRedraw s'"
      using cu k(3) d(6) by simp
  qed
  show ?thesis using 0 1 2 3 4 d(2) by blast
qed

lemma btCallback_trace:
  "\<exists>x. trace (btCallback ev s) = trace s @ x \<and> fullRedraws x = 0
     \<and> (quietEffects x \<longrightarrow> btCallback ev s = s)"
  by (cases ev) (simp_all add: btCallback_def emit_def fullRedraws_def)

lemma exec_trace:
  "exec steps s = Some (Inr s') \<Longrightarrow> \<exists>x. trace s' = trace s @ x"
proof (induction steps arbitrary: s)
  case Nil
  then show ?case by simp
next
  case (Cons st steps)
  show ?case
  proof (cases st)
    case (Event ev)
    then have "exec steps (btCallback ev s) = Some (Inr s')" using Cons.prems by simp
    then obtain x where "trace s' = trace (btCallback ev s) @ x" using Cons.IH by blast
    moreover obtain y where "trace (btCallback ev s) = trace s @ y" using btCallback_trace by blast
    ultimately show ?thesis by simp
  next
    case (Tick env)
    then obtain s1 where s1: "loop env s = Some (Inr s1)" "exec steps s1 = Some (Inr s')"
      using Cons.prems by (auto split: option.splits sum.splits)
    obtain x where "trace s' = trace s1 @ x" using Cons.IH [OF s1(2)] by blast
    moreover obtain y where "trace s1 = trace s @ y" using loop_redraws [OF s1(1)] by auto
    ultimately show ?thesis by simp
  qed
qed

lemma exec_quiet:
  "exec steps s = Some (Inr s') \<Longrightarrow> quietEffects (added s s') \<Longrightarrow>
   fullRedraws (added s s') = (if list_ex isTick steps \<and> \<not> rendered s then 1 else 0)
   \<and> currentState s' = currentState s
   \<and> (list_ex isTick steps \<or> rendered s \<longrightarrow> rendered s')"
proof (induction steps arbitrary: s)
  case Nil
  then show ?case by (simp add: added_def)
next
  case (Cons st steps)
  show ?case
  proof (cases st)
    case (Event ev)
    then have run: "exec steps (btCallback ev s) = Some (Inr s')" using Cons.prems(1) by simp
    obtain x where x: "trace s' = trace (btCallback ev s) @ x" using exec_trace [OF run] by blast
    obtain y where y: "trace (btCallback ev s) = trace s @ y"
        "quietEffects y \<longrightarrow> btCallback ev s = s"
      using btCallback_trace by blast
    have ad: "added s s' = y @ x" using x y(1) by (simp add: added_def)
    then have "quietEffects y" using Cons.prems(2) by simp
    then have same: "btCallback ev s = s" using y(2) by simp
    show ?thesis using Cons.IH [OF run [unfolded same] Cons.prems(2)] Event by simp
  next
    case (Tick env)
    then obtain s1 where s1: "loop env s = Some (Inr s1)" "exec steps s1 = Some (Inr s')"
      using Cons.prems(1) by (auto split: option.splits sum.splits)
    obtain x where x: "trace s' = trace s1 @ x" using exec_trace [OF s1(2)] by blast
    obtain d y where dy: "trace s1 = trace s @ d @ y"
        "fullRedraws d = (if currentState s \<noteq> lastDisplayState s \<or> needsFullRedraw s then 1 else 0)"
        "fullRedraws y = 0" "lastDisplayState s1 = currentState s"
        "quietEffects y \<longrightarrow> currentState s1 = currentState s \<and> \<not> needsFullRedraw s1"
      using loop_redraws [OF s1(1)] by blast
    have ad: "added s s' = d @ y @ x" using x dy(1) by (simp add: added_def)
    have ad1: "added s1 s' = x" using x by (simp add: added_def)
    have q: "quietEffects y" "quietEffects x" using Cons.prems(2) ad by simp_all
    have r1: "rendered s1" using dy(4,5) q(1) by (simp add: rendered_def)
    have c1: "currentState s1 = currentState s" using dy(5) q(1) by simp
    have d0: "fullRedraws d = (if \<not> rendered s then 1 else 0)"
      using dy(2) by (auto simp add: rendered_def)
    have "fullRedraws (added s1 s') = (if list_ex isTick steps \<and> \<not> rendered s1 then 1 else 0)
        \<and> currentState s' = currentState s1
        \<and> (list_ex isTick steps \<or> rendered s1 \<longrightarrow> rendered s')"
      using q(2) ad1 by (intro Cons.IH [OF s1(2)]) simp
    then have "fullRedraws x = 0" "currentState s' = currentState s1" "rendered s'"
      using r1 ad1 by simp_all
    then show ?thesis using ad d0 dy(3) c1 Tick by simp
  qed
qed




subsection \<open>The level analysis where it is called\<close>

lemma sendLoop_keeps:
  assumes "sendLoop wr n k tw s = Some y"
  shows "audioBuffer (snd y) = audioBuffer s \<and> lastLevel (snd y) = lastLevel s"
proof (induction wr n k tw s y rule: sendLoop.raw_induct)
  case (1 sendLoop wr n k tw s y)
  show ?case
  proof (cases "tw < n \<and> btConnected s")
    case False
    have "snd y = s" using 1(2) by (auto simp add: False)
    then show ?thesis by simp
  next
    case True
    let ?w = "min (fst (wr k)) (n - tw)"
    let ?s0 = "emit (BtWrite tw (n - tw)) s"
    let ?s1 = "fold btCallback (snd (wr k)) ?s0"
    have k1: "audioBuffer ?s1 = audioBuffer s \<and> lastLevel ?s1 = lastLevel s"
      by (simp add: events_simps emit_def)
    show ?thesis
    proof (cases "0 < ?w")
      case w: True
      then have "sendLoop wr n (k + 1) (tw + ?w) ?s1 = Some y"
        using 1(2) True by (simp add: Let_def)
      then have "audioBuffer (snd y) = audioBuffer ?s1 \<and> lastLevel (snd y) = lastLevel ?s1"
        using 1(1) by blast
      then show ?thesis using k1 by simp
    next
      case w: False
      then have "sendLoop wr n (k + 1) tw (emit (Delay 1) ?s1) = Some y"
        using 1(2) True by (simp add: Let_def)
      then have "audioBuffer (snd y) = audioBuffer (emit (Delay 1) ?s1)
          \<and> lastLevel (snd y) = lastLevel (emit (Delay 1) ?s1)"
        using 1(1) by blast
      then show ?thesis using k1 by (simp add: emit_def)
    qed
  qed
qed (fact assms)

lemma transmit_keeps:
  assumes "transmit wr n s = Some (r, s')"
  shows "audioBuffer s' = audioBuffer s \<and> lastLevel s' = lastLevel s"
proof -
  obtain s1 where s1: "sendLoop wr n 0 0 s = Some (r, s1)"
    and s': "s' = (if r \<noteq> n then emit (Warning r n) s1 else s1)"
    using assms by (auto simp: transmit_def split: option.splits)
  have "audioBuffer s1 = audioBuffer s \<and> lastLevel s1 = lastLevel s"
    using sendLoop_keeps [OF s1] by simp
  then show ?thesis by (simp add: s' emit_def)
qed

lemma streamAudio_analyzable:
  assumes "analyzable s" "wholeBlocks env"
  shows "streamAudio env s \<noteq> Some (Inl e)
     \<and> (\<forall>s'. streamAudio env s = Some (Inr s') \<longrightarrow> analyzable s')"
proof (cases "btConnected s")
  case False
  then show ?thesis using assms(1) by (simp add: streamAudio_idle analyzable_def emit_def)
next
  case True
  let ?n = "i2s_bytesRead env"
  let ?s1 = "(emit I2SRead s)\<lparr>audioBuffer := take ?n (i2s_data env) @ drop ?n (audioBuffer s)\<rparr>"
  let ?s2 = "fold btCallback (i2s_events env) ?s1"
  have a2: "analyzable ?s2"
    using assms by (simp add: analyzable_def wholeBlocks_def events_simps emit_def)
  show ?thesis
  proof (cases "i2s_ok env \<and> ?n > 0")
    case False
    then have "streamAudio env s = Some (Inr ?s2)"
      using True by (auto simp add: streamAudio_def Let_def)
    then show ?thesis using a2 by simp
  next
    case ok: True
    define lv where "lv = (if ms_level env - lastAudioUpdate ?s2 > 50
                     then (case calculateAudioLevel (audioBuffer ?s2) ?n ?s2 of
                             Inl e \<Rightarrow> Inl e
                           | Inr s3 \<Rightarrow> Inr (s3\<lparr>lastAudioUpdate := ms_level_done env\<rparr>))
                     else Inr ?s2)"
    have run: "streamAudio env s = (case lv of Inl e \<Rightarrow> Some (Inl e)
               | Inr s3 \<Rightarrow> (case transmit (bt_write env) ?n s3 of None \<Rightarrow> None
                            | Some (totalWritten, s4) \<Rightarrow> Some (Inr s4)))"
      using True ok unfolding streamAudio_def Let_def lv_def by simp
    have v: "validBlock (audioBuffer ?s2) ?n"
      using a2 ok assms(2) by (simp add: validBlock_def analyzable_def wholeBlocks_def DATA_SIZE_def)
    have "\<exists>s3. lv = Inr s3 \<and> analyzable s3"
    proof (cases "ms_level env - lastAudioUpdate ?s2 > 50")
      case False
      then have "lv = Inr ?s2" by (simp add: lv_def)
      then show ?thesis using a2 by blast
    next
      case due: True
      define l where "l = spec_level (blockSamples (audioBuffer ?s2) ?n) (lastLevel ?s2)"
      have b: "0 \<le> lastLevel ?s2" "lastLevel ?s2 \<le> 100" using a2 by (simp_all add: analyzable_def)
      have c: "calculateAudioLevel (audioBuffer ?s2) ?n ?s2
          = Inr (?s2\<lparr>audioLevel := l, lastLevel := l\<rparr>)"
        unfolding l_def using v b by (rule calculateAudioLevel_eq)
      have r: "0 \<le> l \<and> l \<le> 100" unfolding l_def using b by (rule spec_level_range)
      have e: "lv = Inr (?s2\<lparr>audioLevel := l, lastLevel := l, lastAudioUpdate := ms_level_done env\<rparr>)"
        using due by (simp add: lv_def c)
      have "analyzable (?s2\<lparr>audioLevel := l, lastLevel := l, lastAudioUpdate := ms_level_done env\<rparr>)"
        using a2 r by (simp add: analyzable_def)
      then show ?thesis using e by blast
    qed
    then obtain s3 where s3: "lv = Inr s3" "analyzable s3" by blast
    show ?thesis
    proof (cases "transmit (bt_write env) ?n s3")
      case None
      then show ?thesis using run s3(1) by simp
    next
      case (Some p)
      obtain r s4 where p: "p = (r, s4)" by (cases p)
      have "audioBuffer s4 = audioBuffer s3 \<and> lastLevel s4 = lastLevel s3"
        using transmit_keeps [of "bt_write env" ?n s3 r s4] Some p by simp
      then have "analyzable s4" using s3(2) by (simp add: analyzable_def)
      then show ?thesis using run s3(1) Some p by simp
    qed
  qed
qed

lemma loop_analyzable:
  assumes "analyzable s" "wholeBlocks env"
  shows "loop env s \<noteq> Some (Inl e) \<and> (\<forall>s'. loop env s = Some (Inr s') \<longrightarrow> analyzable s')"
proof -
  let ?h = "handleTouch env (seenByTouch env s)"
  have "audioBuffer (checkTimeout env ?h) = audioBuffer ?h"
      "lastLevel (checkTimeout env ?h) = lastLevel ?h"
    by (simp_all add: checkTimeout_def emit_def)
  then have "analyzable (checkTimeout env ?h)"
    using assms(1) by (simp add: analyzable_def handleTouch_fields seenByTouch_fields)
  then show ?thesis
    unfolding loop_def seenByTouch_def [symmetric] using assms(2)
    by (rule streamAudio_analyzable)
qed

lemma exec_analyzable:
  "analyzable s \<Longrightarrow> list_all stepWholeBlocks steps \<Longrightarrow>
   exec steps s \<noteq> Some (Inl e) \<and> (\<forall>s'. exec steps s = Some (Inr s') \<longrightarrow> analyzable s')"
proof (induction steps arbitrary: s)
  case Nil
  then show ?case by simp
next
  case (Cons st steps)
  have rest: "list_all stepWholeBlocks steps" using Cons.prems(2) by simp
  show ?case
  proof (cases st)
    case (Event ev)
    have "analyzable (btCallback ev s)"
      using Cons.prems(1) by (cases ev) (simp_all add: btCallback_def emit_def analyzable_def)
    then show ?thesis using Cons.IH [OF _ rest] Event by simp
  next
    case (Tick env)
    have w: "wholeBlocks env" using Cons.prems(2) Tick by simp
    note l = loop_analyzable [OF Cons.prems(1) w]
    show ?thesis
    proof (cases "loop env s")
      case None
      then show ?thesis using Tick by simp
    next
      case (Some r)
      show ?thesis
      proof (cases r)
        case (Inl e')
        then show ?thesis using l [of e'] Some by simp
      next
        case (Inr s1)
        then have "analyzable s1" using l [of e] Some by simp
        then show ?thesis using Cons.IH [OF _ rest] Tick Some Inr by simp
      qed
    qed
  qed
qed

lemma analyzable_initial: "analyzable initial"
  by (simp add: analyzable_def initial_def)

text \<open>
  C4: the level analysis has no failure mode where it is invoked. On every block of at least
  one whole sample inside the buffer, with the previous level in [0,100], every operation is
  defined and the call returns; the sample count is at least 1, so the division of the sample
  sum by it never divides by zero. The one call site passes such a block: under the guard of
  l. 553 and the contract of the capture (a successful read has stored a whole block of
  \<^verbatim>\<open>DATA_SIZE\<close> bytes), no pass traps in the analysis, and every pass keeps what the next
  call relies on, the buffer length and the previous level in [0,100]; so no run from the
  initial state, of any length and with any link events, ever traps.
\<close>

theorem calculateAudioLevel_has_no_failure_mode:
  "(validBlock buffer len \<and> 0 \<le> lastLevel s \<and> lastLevel s \<le> 100
      \<longrightarrow> (\<exists>s'. calculateAudioLevel buffer len s = Inr s'))
   \<and> (analyzable s \<and> wholeBlocks env
      \<longrightarrow> loop env s \<noteq> Some (Inl e) \<and> (\<forall>s'. loop env s = Some (Inr s') \<longrightarrow> analyzable s'))
   \<and> (list_all stepWholeBlocks steps \<longrightarrow> exec steps initial \<noteq> Some (Inl e))"
proof (intro conjI impI)
  assume "validBlock buffer len \<and> 0 \<le> lastLevel s \<and> lastLevel s \<le> 100"
  then show "\<exists>s'. calculateAudioLevel buffer len s = Inr s'"
    using calculateAudioLevel_eq [of buffer len s] by blast
next
  assume h: "analyzable s \<and> wholeBlocks env"
  show "loop env s \<noteq> Some (Inl e)" using loop_analyzable [of s env e] h by blast
  show "\<forall>s'. loop env s = Some (Inr s') \<longrightarrow> analyzable s'"
    using loop_analyzable [of s env e] h by blast
next
  assume "list_all stepWholeBlocks steps"
  then show "exec steps initial \<noteq> Some (Inl e)"
    using exec_analyzable [OF analyzable_initial, of steps e] by blast
qed

theorem calculateAudioLevel_has_no_failure_mode_witness:
  "validBlock [24, 252, 232, 3] 4 \<and> 0 \<le> lastLevel initial \<and> lastLevel initial \<le> 100
   \<and> (\<exists>s'. calculateAudioLevel [24, 252, 232, 3] 4 initial = Inr s')
   \<and> analyzable (initial\<lparr>btConnected := True\<rparr>)
   \<and> wholeBlocks ((quiet 1000)\<lparr>i2s_ok := True, i2s_bytesRead := 2048,
                      i2s_data := replicate 2048 7, bt_write := (\<lambda>k. (2048, []))\<rparr>)
   \<and> loop ((quiet 1000)\<lparr>i2s_ok := True, i2s_bytesRead := 2048,
                      i2s_data := replicate 2048 7, bt_write := (\<lambda>k. (2048, []))\<rparr>)
        (initial\<lparr>btConnected := True\<rparr>) \<noteq> Some (Inl DivideByZero)
   \<and> list_all stepWholeBlocks
        [Tick (touchAt 100 200 500), Event ESP_SPP_SRV_OPEN_EVT,
         Tick ((quiet 1000)\<lparr>i2s_ok := True, i2s_bytesRead := 2048,
                      i2s_data := replicate 2048 7, bt_write := (\<lambda>k. (2048, []))\<rparr>)]
   \<and> exec [Tick (touchAt 100 200 500), Event ESP_SPP_SRV_OPEN_EVT,
         Tick ((quiet 1000)\<lparr>i2s_ok := True, i2s_bytesRead := 2048,
                      i2s_data := replicate 2048 7, bt_write := (\<lambda>k. (2048, []))\<rparr>)] initial
       \<noteq> Some (Inl DivideByZero)"
proof -
  let ?E = "(quiet 1000)\<lparr>i2s_ok := True, i2s_bytesRead := 2048,
                      i2s_data := replicate 2048 7, bt_write := (\<lambda>k. (2048, []))\<rparr>"
  let ?S = "initial\<lparr>btConnected := True\<rparr>"
  let ?steps = "[Tick (touchAt 100 200 500), Event ESP_SPP_SRV_OPEN_EVT, Tick ?E]"
  have v: "validBlock [24, 252, 232, 3] 4 \<and> 0 \<le> lastLevel initial \<and> lastLevel initial \<le> 100"
    by (simp add: validBlock_def DATA_SIZE_def initial_def)
  have a: "analyzable ?S \<and> wholeBlocks ?E"
    by (simp add: analyzable_def wholeBlocks_def DATA_SIZE_def initial_def quiet_def touchAt_def)
  have w: "list_all stepWholeBlocks ?steps"
    by (simp add: wholeBlocks_def DATA_SIZE_def quiet_def touchAt_def)
  note t1 = calculateAudioLevel_has_no_failure_mode
    [where buffer = "[24, 252, 232, 3]" and len = 4 and s = initial]
  note t2 = calculateAudioLevel_has_no_failure_mode
    [where s = ?S and env = ?E and e = DivideByZero and steps = ?steps]
  have 1: "\<exists>s'. calculateAudioLevel [24, 252, 232, 3] 4 initial = Inr s'" using t1 v by blast
  have 2: "loop ?E ?S \<noteq> Some (Inl DivideByZero)" using t2 a by blast
  have 3: "exec ?steps initial \<noteq> Some (Inl DivideByZero)" using t2 w by blast
  show ?thesis using v a w 1 2 3 by blast
qed

end
